theory Spec2Isabelle
  imports Complex_Main "HOL-Library.Word" "HOL-Library.Transitive_Closure_Table"
begin

section \<open>TP4, exercise 1: the two factorial functions\<close>

text \<open>
  \<open>unsigned long\<close> is a 64-bit word: multiplication and subtraction wrap around.
  The recursion descends on \<open>n - 1\<close> and stops at 0 or 1.
\<close>

type_synonym ulong = "64 word"

function factorialRecurs :: "ulong \<Rightarrow> ulong" where
  "factorialRecurs n = (if n = 0 \<or> n = 1 then 1 else n * factorialRecurs (n - 1))"
  by pat_completeness auto
termination
  by (relation "measure unat") (auto simp: measure_unat)

declare factorialRecurs.simps [simp del]

text \<open>
  \<open>factorialDP\<close> declares its memo array \<open>dp\<close> as a local of 100000 cells and zeroes
  every cell at the start of every call. The read \<open>dp[n]\<close> is outside the array from
  100000 on, which the model reports as \<open>None\<close>. The store \<open>dp[n] = ...\<close> writes the
  local array of the returning call, so only the stored value survives, as the
  result.
\<close>

definition dp_size :: nat where
  "dp_size = 100000"

function factorialDP :: "ulong \<Rightarrow> ulong option" where
  "factorialDP n =
     (let dp = replicate dp_size (0 :: ulong) in
      if n = 0 \<or> n = 1 then Some 1
      else if length dp \<le> unat n then None
      else if dp ! unat n \<noteq> 0 then Some (dp ! unat n)
      else map_option (\<lambda>r. n * r) (factorialDP (n - 1)))"
  by pat_completeness auto
termination
  by (relation "measure unat") (auto simp: measure_unat)

declare factorialDP.simps [simp del]

section \<open>TP7: the graph, its vertices and its edges\<close>

text \<open>
  The graph owns a vector of vertex pointers which only ever grows at its end, and
  every vertex owns a vector of edge pointers which only ever grows at its end. A
  \<open>Vertex<T> *\<close> is therefore modelled by the position of the vertex in \<open>vertexSet\<close>, and
  an \<open>Edge<T> *\<close> by the position of the owning vertex together with the position of
  the edge in that vertex's \<open>adj\<close>. \<open>nullptr\<close> is \<open>None\<close>.

  Weights and distances are \<open>double\<close> in the source; they are modelled by real
  numbers, and \<open>INF_dbl\<close> is the value of the macro \<open>INF\<close>, that is the value of \<open>std::numeric_limits<double>::max()\<close>.
\<close>

type_synonym vref = nat
type_synonym eref = "nat \<times> nat"

record edge =
  orig :: vref
  dest :: vref
  weight :: real
  selected :: bool
  reverse :: "eref option"

record 'a vertex =
  info :: 'a
  adj :: "edge list"
  visited :: bool
  distv :: real
  path :: "vref option"
  queueIndex :: int
  idv :: int
  rank :: int

type_synonym 'a graph = "'a vertex list"

definition INF_dbl :: real where
  "INF_dbl = (2 ^ 53 - 1) * 2 ^ 971"

datatype error = OutOfRange | NullDeref

text \<open>The constructor \<open>Edge(o, d, w)\<close>, with the in-class initialisers of the other fields.\<close>

definition Edge :: "vref \<Rightarrow> vref \<Rightarrow> real \<Rightarrow> edge" where
  "Edge o' d w = \<lparr>orig = o', dest = d, weight = w, selected = False, reverse = None\<rparr>"

text \<open>
  The constructor \<open>Vertex(in)\<close>. The source gives \<open>visited\<close>, \<open>id\<close> and \<open>rank\<close> no initial
  value; both algorithms write them before they read them, and the model starts them
  at \<open>False\<close> and 0.
\<close>

definition Vertex :: "'a \<Rightarrow> 'a vertex" where
  "Vertex i = \<lparr>info = i, adj = [], visited = False, distv = 0, path = None,
                queueIndex = 0, idv = 0, rank = 0\<rparr>"

text \<open>\<open>Vertex::addEdge\<close>: a new edge at the end of \<open>adj\<close>; the pointer to it is returned.\<close>

definition Vertex_addEdge :: "vref \<Rightarrow> vref \<Rightarrow> real \<Rightarrow> 'a graph \<Rightarrow> eref \<times> 'a graph" where
  "Vertex_addEdge this d w g =
     ((this, length (adj (g ! this))),
      g[this := (g ! this)\<lparr>adj := adj (g ! this) @ [Edge this d w]\<rparr>])"

definition getNumVertex :: "'a graph \<Rightarrow> int" where
  "getNumVertex g = int (length g)"

fun findFrom :: "nat \<Rightarrow> 'a vertex list \<Rightarrow> 'a \<Rightarrow> vref option" where
  "findFrom k [] i = None"
| "findFrom k (v # vs) i = (if info v = i then Some k else findFrom (Suc k) vs i)"

definition findVertex :: "'a graph \<Rightarrow> 'a \<Rightarrow> vref option" where
  "findVertex g i = findFrom 0 g i"

definition addVertex :: "'a \<Rightarrow> 'a graph \<Rightarrow> bool \<times> 'a graph" where
  "addVertex i g =
     (if findVertex g i \<noteq> None then (False, g) else (True, g @ [Vertex i]))"

definition addEdge :: "'a \<Rightarrow> 'a \<Rightarrow> real \<Rightarrow> 'a graph \<Rightarrow> bool \<times> 'a graph" where
  "addEdge sourc dst w g =
     (case (findVertex g sourc, findVertex g dst) of
        (Some v1, Some v2) \<Rightarrow> (True, snd (Vertex_addEdge v1 v2 w g))
      | _ \<Rightarrow> (False, g))"

text \<open>Writing \<open>e->reverse = r\<close> through an edge pointer.\<close>

definition set_reverse :: "eref \<Rightarrow> eref \<Rightarrow> 'a graph \<Rightarrow> 'a graph" where
  "set_reverse e r g =
     g[fst e := (g ! fst e)\<lparr>adj := (adj (g ! fst e))
                    [snd e := (adj (g ! fst e) ! snd e)\<lparr>reverse := Some r\<rparr>]\<rparr>]"

definition addBidirectionalEdge :: "'a \<Rightarrow> 'a \<Rightarrow> real \<Rightarrow> 'a graph \<Rightarrow> bool \<times> 'a graph" where
  "addBidirectionalEdge sourc dst w g =
     (case (findVertex g sourc, findVertex g dst) of
        (Some v1, Some v2) \<Rightarrow>
          (let (edge1, g1) = Vertex_addEdge v1 v2 w g;
               (edge2, g2) = Vertex_addEdge v2 v1 w g1
           in (True, set_reverse edge2 edge1 (set_reverse edge1 edge2 g2)))
      | _ \<Rightarrow> (False, g))"

text \<open>Reading through an edge pointer; \<open>None\<close> when it points at no edge of the graph.\<close>

definition edge_at :: "'a graph \<Rightarrow> eref \<Rightarrow> edge option" where
  "edge_at g e =
     (if fst e < length g \<and> snd e < length (adj (g ! fst e))
      then Some (adj (g ! fst e) ! snd e) else None)"

section \<open>The priority queue used by Prim's algorithm\<close>

text \<open>
  Modelled from the spec: \<open>MutablePriorityQueue.h\<close> is included by \<open>Graph.h\<close> but is not
  among the sources. The spec asks for \<open>insert(item)\<close>, \<open>extractMin()\<close>, which removes
  and returns the item with the smallest key, \<open>decreaseKey(item)\<close>, which repositions
  an item whose key has decreased, and an emptiness test; the key is the vertex's
  distance, compared with \<open><\<close>. The model keeps the queued vertex pointers in a list
  and reads the keys from the graph when it extracts, so that a decreased key needs
  no repositioning; among vertices of equal smallest distance the one queued first
  is extracted.
\<close>

type_synonym pqueue = "vref list"

definition insert_q :: "pqueue \<Rightarrow> vref \<Rightarrow> pqueue" where
  "insert_q q x = q @ [x]"

definition decreaseKey :: "pqueue \<Rightarrow> vref \<Rightarrow> pqueue" where
  "decreaseKey q x = q"

fun min_q :: "'a graph \<Rightarrow> vref \<Rightarrow> vref list \<Rightarrow> vref" where
  "min_q g m [] = m"
| "min_q g m (x # xs) = min_q g (if distv (g ! x) < distv (g ! m) then x else m) xs"

definition extractMin :: "'a graph \<Rightarrow> pqueue \<Rightarrow> vref \<times> pqueue" where
  "extractMin g q = (let m = min_q g (hd q) (tl q) in (m, remove1 m q))"

section \<open>Prim's algorithm\<close>

definition prim_reset :: "'a vertex \<Rightarrow> 'a vertex" where
  "prim_reset v = v\<lparr>distv := INF_dbl, path := None, visited := False\<rparr>"

text \<open>The body of the loop over the outgoing edges of \<open>currV\<close>, for one edge.\<close>

definition prim_relax :: "vref \<Rightarrow> edge \<Rightarrow> 'a graph \<times> pqueue \<Rightarrow> 'a graph \<times> pqueue" where
  "prim_relax currV e s =
     (let (g, q) = s; destV = dest e in
      if \<not> visited (g ! destV) then
        (let currDist = distv (g ! destV) in
         if distv (g ! destV) > weight e then
           (let g' = g[destV := (g ! destV)\<lparr>distv := weight e, path := Some currV\<rparr>] in
            if currDist = INF_dbl then (g', insert_q q destV)
            else (g', decreaseKey q destV))
         else (g, q))
      else (g, q))"

text \<open>
  One round of the \<open>while\<close> loop. The loop over \<open>currV->adj\<close> changes no adjacency
  vector, so it runs over the edges as they are when it starts.
\<close>

definition prim_step :: "'a graph \<Rightarrow> pqueue \<Rightarrow> 'a graph \<times> pqueue" where
  "prim_step g q =
     (let (currV, q1) = extractMin g q;
          g1 = g[currV := (g ! currV)\<lparr>visited := True\<rparr>]
      in fold (prim_relax currV) (adj (g1 ! currV)) (g1, q1))"

partial_function (option) prim_loop :: "'a graph \<Rightarrow> pqueue \<Rightarrow> 'a graph option" where
  "prim_loop g q =
     (if q = [] then Some g
      else (let (g', q') = prim_step g q in prim_loop g' q'))"

declare prim_loop.simps [code]

text \<open>
  \<open>calculatePrim\<close>. \<open>vertexSet.at(0)\<close> throws \<open>std::out_of_range\<close> on an empty vector,
  which is \<open>Inl OutOfRange\<close>; \<open>None\<close> would be a loop that never ends.
\<close>

definition calculatePrim :: "'a graph \<Rightarrow> (error + 'a graph) option" where
  "calculatePrim g =
     (let g0 = map prim_reset g in
      if g0 = [] then Some (Inl OutOfRange)
      else (let q = insert_q [] 0;
                g1 = g0[0 := (g0 ! 0)\<lparr>distv := 0\<rparr>]
            in map_option Inr (prim_loop g1 q)))"

section \<open>Disjoint sets\<close>

definition makeSet :: "vref \<Rightarrow> 'a graph \<Rightarrow> 'a graph" where
  "makeSet x g = g[x := (g ! x)\<lparr>path := Some x, rank := 0\<rparr>]"

text \<open>
  \<open>findSet\<close> returns the representative and compresses the path on the way back.
  Following a null \<open>path\<close> dereferences a null pointer, which is \<open>Inl NullDeref\<close>.
\<close>

partial_function (option) findSet :: "'a graph \<Rightarrow> vref \<Rightarrow> (error + vref \<times> 'a graph) option" where
  "findSet g x =
     (case path (g ! x) of
        None \<Rightarrow> Some (Inl NullDeref)
      | Some p \<Rightarrow>
          if x \<noteq> p then
            Option.bind (findSet g p)
              (\<lambda>r. case r of
                      Inl e \<Rightarrow> Some (Inl e)
                    | Inr (rep, g') \<Rightarrow> Some (Inr (rep, g'[x := (g' ! x)\<lparr>path := Some rep\<rparr>])))
          else Some (Inr (p, g)))"

declare findSet.simps [code]

text \<open>Sequencing of steps that may fail or not return.\<close>

definition bind_res :: "(error + 'b) option \<Rightarrow> ('b \<Rightarrow> (error + 'c) option) \<Rightarrow> (error + 'c) option" where
  "bind_res m f = (case m of None \<Rightarrow> None | Some (Inl e) \<Rightarrow> Some (Inl e) | Some (Inr x) \<Rightarrow> f x)"

definition linkSets :: "vref \<Rightarrow> vref \<Rightarrow> 'a graph \<Rightarrow> (error + 'a graph) option" where
  "linkSets x y g =
     bind_res (findSet g x) (\<lambda>(i, g1).
     bind_res (findSet g1 y) (\<lambda>(j, g2).
       if rank (g2 ! i) > rank (g2 ! j) then Some (Inr (g2[j := (g2 ! j)\<lparr>path := Some i\<rparr>]))
       else (let g3 = g2[i := (g2 ! i)\<lparr>path := Some j\<rparr>] in
             if rank (g3 ! i) = rank (g3 ! j)
             then Some (Inr (g3[j := (g3 ! j)\<lparr>rank := rank (g3 ! j) + 1\<rparr>]))
             else Some (Inr g3))))"

section \<open>Kruskal's algorithm\<close>

text \<open>Reading and writing through an edge pointer that points at an edge of the graph.\<close>

definition the_edge :: "'a graph \<Rightarrow> eref \<Rightarrow> edge" where
  "the_edge g e = adj (g ! fst e) ! snd e"

definition set_selected :: "eref \<Rightarrow> bool \<Rightarrow> 'a graph \<Rightarrow> 'a graph" where
  "set_selected e b g =
     g[fst e := (g ! fst e)\<lparr>adj := (adj (g ! fst e))
                    [snd e := (adj (g ! fst e) ! snd e)\<lparr>selected := b\<rparr>]\<rparr>]"

text \<open>First loop: every vertex becomes a singleton set and gets its position as \<open>id\<close>.\<close>

definition kruskal_init :: "'a graph \<Rightarrow> 'a graph" where
  "kruskal_init g =
     fold (\<lambda>k g'. (let g1 = makeSet k g' in g1[k := (g1 ! k)\<lparr>idv := int k\<rparr>]))
          [0..<length g] g"

text \<open>The pointers to all edges, in the order of the two nested loops.\<close>

definition all_erefs :: "'a graph \<Rightarrow> eref list" where
  "all_erefs g = concat (map (\<lambda>v. map (\<lambda>k. (v, k)) [0..<length (adj (g ! v))]) [0..<length g])"

text \<open>Second loop: deselect every edge and collect those that go from a smaller \<open>id\<close> to a larger.\<close>

definition collect_step :: "eref \<Rightarrow> 'a graph \<times> eref list \<Rightarrow> 'a graph \<times> eref list" where
  "collect_step e s =
     (let (g, edges) = s;
          g' = set_selected e False g;
          ed = the_edge g' e
      in if idv (g' ! orig ed) < idv (g' ! dest ed) then (g', edges @ [e]) else (g', edges))"

definition kruskal_collect :: "'a graph \<Rightarrow> 'a graph \<times> eref list" where
  "kruskal_collect g = fold collect_step (all_erefs g) (g, [])"

text \<open>
  \<open>std::sort\<close> by ascending weight. It leaves the order of edges of equal weight
  open; the model keeps them in the order in which they were collected.
\<close>

definition sort_edges :: "'a graph \<Rightarrow> eref list \<Rightarrow> eref list" where
  "sort_edges g edges = sort_key (\<lambda>e. weight (the_edge g e)) edges"

text \<open>
  Third loop, with its counter \<open>edgeCounter\<close>. \<open>e->reverse->selected = true\<close> dereferences
  a null pointer when the edge has no reverse.
\<close>

fun kruskal_loop :: "eref list \<Rightarrow> 'a graph \<Rightarrow> nat \<Rightarrow> (error + 'a graph \<times> nat) option" where
  "kruskal_loop [] g edgeCounter = Some (Inr (g, edgeCounter))"
| "kruskal_loop (e # es) g edgeCounter =
     bind_res (findSet g (orig (the_edge g e))) (\<lambda>(i, g1).
     bind_res (findSet g1 (dest (the_edge g1 e))) (\<lambda>(j, g2).
       if i \<noteq> j then
         bind_res (linkSets (orig (the_edge g2 e)) (dest (the_edge g2 e)) g2) (\<lambda>g3.
           (let g4 = set_selected e True g3 in
            case reverse (the_edge g4 e) of
              None \<Rightarrow> Some (Inl NullDeref)
            | Some r \<Rightarrow> kruskal_loop es (set_selected r True g4) (Suc edgeCounter)))
       else kruskal_loop es g2 edgeCounter))"

text \<open>
  \<open>dfsKruskalPath\<close>. \<open>dfs_loop g v es\<close> is the loop of the call for \<open>v\<close> with the edges \<open>es\<close>
  still to visit; the recursive call for \<open>e->dest\<close> marks it visited and runs its own
  loop before this one goes on. No adjacency vector and no \<open>selected\<close> flag changes
  during the traversal.
\<close>

partial_function (option) dfs_loop :: "'a graph \<Rightarrow> vref \<Rightarrow> edge list \<Rightarrow> 'a graph option" where
  "dfs_loop g v es =
     (case es of
        [] \<Rightarrow> Some g
      | e # es' \<Rightarrow>
          if \<not> visited (g ! dest e) \<and> selected e then
            (let g1 = g[dest e := (g ! dest e)\<lparr>path := Some v\<rparr>];
                 g2 = g1[dest e := (g1 ! dest e)\<lparr>visited := True\<rparr>]
             in Option.bind (dfs_loop g2 (dest e) (adj (g2 ! dest e)))
                  (\<lambda>g3. dfs_loop g3 v es'))
          else dfs_loop g v es')"

declare dfs_loop.simps [code]

definition dfsKruskalPath :: "'a graph \<Rightarrow> vref \<Rightarrow> 'a graph option" where
  "dfsKruskalPath g v =
     (let g1 = g[v := (g ! v)\<lparr>visited := True\<rparr>] in dfs_loop g1 v (adj (g1 ! v)))"

text \<open>The state after the first three loops: the disjoint sets and the selected edges.\<close>

definition kruskal_sets :: "'a graph \<Rightarrow> (error + 'a graph \<times> nat) option" where
  "kruskal_sets g =
     (let g1 = kruskal_init g;
          (g2, edges) = kruskal_collect g1
      in kruskal_loop (sort_edges g2 edges) g2 0)"

definition calculateKruskal :: "'a graph \<Rightarrow> (error + 'a graph) option" where
  "calculateKruskal g =
     bind_res (kruskal_sets g) (\<lambda>(g3, edgeCounter).
       (let g4 = map (\<lambda>v. v\<lparr>visited := False\<rparr>) g3 in
        if g4 = [] then Some (Inl OutOfRange)
        else (let g5 = g4[0 := (g4 ! 0)\<lparr>path := None\<rparr>]
              in map_option Inr (dfsKruskalPath g5 0))))"

section \<open>Well-formed graphs\<close>

text \<open>
  Every edge is stored at its origin and points at a vertex of the graph, as
  \<open>addEdge\<close> and \<open>addBidirectionalEdge\<close> build them.
\<close>

definition wf_graph :: "'a graph \<Rightarrow> bool" where
  "wf_graph g \<longleftrightarrow>
     (\<forall>v < length g. \<forall>e \<in> set (adj (g ! v)). orig e = v \<and> dest e < length g)"

text \<open>
  Every edge has a reverse, as \<open>addBidirectionalEdge\<close> builds them: an edge of the same
  weight between the same vertices in the other direction, whose reverse it is.
\<close>

definition wf_bidir :: "'a graph \<Rightarrow> bool" where
  "wf_bidir g \<longleftrightarrow> wf_graph g \<and>
     (\<forall>v < length g. \<forall>k < length (adj (g ! v)).
        (case reverse (adj (g ! v) ! k) of
           None \<Rightarrow> False
         | Some r \<Rightarrow>
             (case edge_at g r of
                None \<Rightarrow> False
              | Some e' \<Rightarrow> orig e' = dest (adj (g ! v) ! k) \<and> dest e' = v
                          \<and> weight e' = weight (adj (g ! v) ! k) \<and> reverse e' = Some (v, k))))"

section \<open>Notions used to state the properties of Prim's algorithm\<close>

text \<open>
  The states in which the loop of \<open>calculatePrim\<close> runs: a well-formed graph, no
  distance above \<open>INF_dbl\<close>, and a queue of vertices of the graph.
\<close>

definition prim_ok :: "'a graph \<Rightarrow> pqueue \<Rightarrow> bool" where
  "prim_ok g q \<longleftrightarrow> wf_graph g \<and> (\<forall>v < length g. distv (g ! v) \<le> INF_dbl)
                   \<and> (\<forall>x \<in> set q. x < length g)"

definition far :: "'a graph \<Rightarrow> vref set" where
  "far g = {v. v < length g \<and> distv (g ! v) = INF_dbl}"

definition prim_measure :: "'a graph \<Rightarrow> pqueue \<Rightarrow> nat" where
  "prim_measure g q = 2 * card (far g) + length q"

text \<open>The state in which \<open>calculatePrim\<close> enters its loop, for a graph with a vertex.\<close>

definition prim_start :: "'a graph \<Rightarrow> 'a graph" where
  "prim_start g = (map prim_reset g)[0 := (map prim_reset g ! 0)\<lparr>distv := 0\<rparr>]"

text \<open>The edges as a relation between vertices, and what a vertex reaches along them.\<close>

definition edge_rel :: "'a graph \<Rightarrow> (vref \<times> vref) set" where
  "edge_rel g = {(u, v). u < length g \<and> (\<exists>e \<in> set (adj (g ! u)). dest e = v)}"

definition reaches :: "'a graph \<Rightarrow> vref \<Rightarrow> vref \<Rightarrow> bool" where
  "reaches g u v \<longleftrightarrow> (u, v) \<in> (edge_rel g)\<^sup>*"

text \<open>
  Two graphs for concrete instances: the four vertices and four edges of the spec's
  scenario, and two vertices with no edge between them.
\<close>

definition scenario :: "string graph" where
  "scenario =
     (let g = snd (addVertex ''A'' []);
          g = snd (addVertex ''B'' g);
          g = snd (addVertex ''C'' g);
          g = snd (addVertex ''D'' g);
          g = snd (addBidirectionalEdge ''A'' ''B'' 1 g);
          g = snd (addBidirectionalEdge ''B'' ''C'' 2 g);
          g = snd (addBidirectionalEdge ''A'' ''C'' 4 g);
          g = snd (addBidirectionalEdge ''C'' ''D'' 3 g)
      in g)"

definition two_apart :: "string graph" where
  "two_apart = snd (addVertex ''B'' (snd (addVertex ''A'' [])))"

text \<open>What one relaxation keeps: the shape of the graph, and the measure does not grow.\<close>

definition relax_keeps :: "'a graph \<Rightarrow> nat \<Rightarrow> 'a graph \<times> pqueue \<Rightarrow> bool" where
  "relax_keeps g0 m s \<longleftrightarrow>
     prim_ok (fst s) (snd s) \<and> map prim_reset (fst s) = map prim_reset g0
     \<and> prim_measure (fst s) (snd s) \<le> m"

text \<open>Nothing outside what vertex 0 reaches is queued or written.\<close>

definition inside :: "'a graph \<Rightarrow> 'a graph \<times> pqueue \<Rightarrow> bool" where
  "inside g s \<longleftrightarrow> length (fst s) = length g \<and> (\<forall>x \<in> set (snd s). reaches g 0 x)
     \<and> (\<forall>x < length g. \<not> reaches g 0 x \<longrightarrow> distv (fst s ! x) = INF_dbl \<and> path (fst s ! x) = None)"

section \<open>Notions used to state the properties of the disjoint sets\<close>

text \<open>
  \<open>uf_rel g f\<close>: the \<open>path\<close> pointers of \<open>g\<close> form a forest whose trees are the sets, and
  \<open>f\<close> maps every vertex to the root of its tree. Ranks grow strictly along the
  pointers.
\<close>

definition uf_rel :: "'a graph \<Rightarrow> (vref \<Rightarrow> vref) \<Rightarrow> bool" where
  "uf_rel g f \<longleftrightarrow>
     (\<forall>x < length g.
        f x < length g \<and> path (g ! f x) = Some (f x)
        \<and> (f x \<noteq> x \<longrightarrow> rank (g ! x) < rank (g ! f x))
        \<and> (\<exists>p < length g. path (g ! x) = Some p \<and> f p = f x \<and> (p = x \<longrightarrow> f x = x)
              \<and> (p \<noteq> x \<longrightarrow> rank (g ! x) < rank (g ! p))))"

text \<open>What the disjoint-set operations leave alone: everything but \<open>path\<close> and \<open>rank\<close>.\<close>

definition uf_erase :: "'a vertex \<Rightarrow> 'a vertex" where
  "uf_erase v = v\<lparr>path := None, rank := 0\<rparr>"

text \<open>Joining the set with root \<open>i\<close> to the set with root \<open>j\<close>.\<close>

definition merge_into :: "(vref \<Rightarrow> vref) \<Rightarrow> vref \<Rightarrow> vref \<Rightarrow> vref \<Rightarrow> vref" where
  "merge_into f i j x = (if f x = i then j else f x)"

section \<open>Notions used to state the properties of Kruskal's algorithm\<close>

text \<open>An edge pointer that points at an edge of the graph.\<close>

definition valid_eref :: "'a graph \<Rightarrow> eref \<Rightarrow> bool" where
  "valid_eref g r \<longleftrightarrow> fst r < length g \<and> snd r < length (adj (g ! fst r))"

text \<open>
  What the first three loops of \<open>calculateKruskal\<close> leave alone: everything but
  \<open>path\<close>, \<open>rank\<close>, \<open>id\<close> and the \<open>selected\<close> flags.
\<close>

definition unsel :: "edge \<Rightarrow> edge" where
  "unsel e = e\<lparr>selected := False\<rparr>"

definition kr_erase :: "'a vertex \<Rightarrow> 'a vertex" where
  "kr_erase v = v\<lparr>path := None, rank := 0, idv := 0, adj := map unsel (adj v)\<rparr>"

text \<open>The pointers to the selected edges.\<close>

definition sel :: "'a graph \<Rightarrow> eref set" where
  "sel g = {r. valid_eref g r \<and> selected (the_edge g r)}"

text \<open>
  The edges that the third loop goes through, in its order: those from a vertex to a
  vertex further on in \<open>vertexSet\<close>, by ascending weight.
\<close>

definition kruskal_edges :: "'a graph \<Rightarrow> eref list" where
  "kruskal_edges g =
     sort_key (\<lambda>r. weight (the_edge g r))
       (filter (\<lambda>r. fst r < dest (the_edge g r)) (all_erefs g))"

text \<open>What the traversal leaves alone: everything but \<open>path\<close> and \<open>visited\<close>.\<close>

definition dfs_erase :: "'a vertex \<Rightarrow> 'a vertex" where
  "dfs_erase v = v\<lparr>path := None, visited := False\<rparr>"

definition unvis :: "'a graph \<Rightarrow> vref set" where
  "unvis g = {x. x < length g \<and> \<not> visited (g ! x)}"

text \<open>A third graph for concrete instances: a vertex on its own and two linked vertices.\<close>

definition three_apart :: "string graph" where
  "three_apart =
     (let g = snd (addVertex ''A'' []);
          g = snd (addVertex ''B'' g);
          g = snd (addVertex ''C'' g);
          g = snd (addBidirectionalEdge ''B'' ''C'' 5 g)
      in g)"

section \<open>Spanning trees\<close>

text \<open>
  The undirected graph behind the two directions of each edge: an undirected edge is
  the triple of its smaller endpoint, its larger endpoint and its weight. Loops from
  a vertex to itself are in no spanning tree and are left out.
\<close>

type_synonym uedge = "nat \<times> nat \<times> real"

definition norm_edge :: "nat \<Rightarrow> nat \<Rightarrow> real \<Rightarrow> uedge" where
  "norm_edge u v w = (if u \<le> v then (u, v, w) else (v, u, w))"

definition uedges :: "'a graph \<Rightarrow> uedge set" where
  "uedges g = {norm_edge u (dest e) (weight e) | u e.
                 u < length g \<and> e \<in> set (adj (g ! u)) \<and> u \<noteq> dest e}"

text \<open>The vertices that a set of undirected edges links, in both directions.\<close>

definition links :: "uedge set \<Rightarrow> (nat \<times> nat) set" where
  "links T = {(u, v). \<exists>w. (u, v, w) \<in> T \<or> (v, u, w) \<in> T}"

definition connects :: "nat \<Rightarrow> uedge set \<Rightarrow> bool" where
  "connects n T \<longleftrightarrow> (\<forall>v < n. (0, v) \<in> (links T)\<^sup>*)"

text \<open>
  A spanning tree of a graph with \<open>V\<close> vertices: \<open>V - 1\<close> of its undirected edges that
  connect all its vertices. Its weight is the sum of the weights of its edges, and
  a minimum spanning tree is a spanning tree of least weight.
\<close>

definition spanning_tree :: "'a graph \<Rightarrow> uedge set \<Rightarrow> bool" where
  "spanning_tree g T \<longleftrightarrow> T \<subseteq> uedges g \<and> card T = length g - 1 \<and> connects (length g) T"

definition tree_weight :: "uedge set \<Rightarrow> real" where
  "tree_weight T = (\<Sum>e \<in> T. snd (snd e))"

definition is_mst :: "'a graph \<Rightarrow> uedge set \<Rightarrow> bool" where
  "is_mst g T \<longleftrightarrow> spanning_tree g T \<and> (\<forall>T'. spanning_tree g T' \<longrightarrow> tree_weight T \<le> tree_weight T')"

text \<open>An undirected edge with exactly one endpoint in \<open>S\<close>.\<close>

definition crosses :: "nat set \<Rightarrow> uedge \<Rightarrow> bool" where
  "crosses S e \<longleftrightarrow> (fst e \<in> S) \<noteq> (fst (snd e) \<in> S)"

text \<open>
  A set of edges that can be completed to a spanning tree as light as any given
  one: the edges chosen so far by either algorithm.
\<close>

definition extendable :: "'a graph \<Rightarrow> uedge set \<Rightarrow> bool" where
  "extendable g A \<longleftrightarrow>
     (\<forall>T. spanning_tree g T \<longrightarrow>
        (\<exists>T'. spanning_tree g T' \<and> tree_weight T' \<le> tree_weight T \<and> A \<subseteq> T'))"

section \<open>Notions used to state that Prim's algorithm finds a minimum spanning tree\<close>

text \<open>The visited vertices, and the edges from their parents to them.\<close>

definition vis :: "'a graph \<Rightarrow> nat set" where
  "vis h = {v. v < length h \<and> visited (h ! v)}"

definition tree_of :: "'a graph \<Rightarrow> uedge set" where
  "tree_of h = {norm_edge p v (distv (h ! v)) | v p. v \<in> vis h \<and> path (h ! v) = Some p}"

text \<open>The edges from every parent to its child, in the graph that \<open>calculatePrim\<close> returns.\<close>

definition prim_tree :: "'a graph \<Rightarrow> uedge set" where
  "prim_tree h = {norm_edge p v (distv (h ! v)) | v p. v < length h \<and> path (h ! v) = Some p}"

text \<open>
  The state of the loop of \<open>calculatePrim\<close> on the graph \<open>g\<close>, once vertex 0 is visited.
  The queue holds the unvisited vertices with a distance below \<open>INF_dbl\<close>; such a
  vertex has a visited parent and an edge from it of that weight; no edge from a
  visited vertex outside \<open>X\<close> to an unvisited vertex is lighter than the distance of
  that vertex; every visited vertex but vertex 0 has a visited parent.
\<close>

definition prim_struct :: "'a graph \<Rightarrow> nat set \<Rightarrow> 'a graph \<times> pqueue \<Rightarrow> bool" where
  "prim_struct g X s \<longleftrightarrow>
     map prim_reset (fst s) = map prim_reset g
     \<and> visited (fst s ! 0) \<and> path (fst s ! 0) = None
     \<and> distinct (snd s)
     \<and> set (snd s) = {v. v < length g \<and> \<not> visited (fst s ! v) \<and> distv (fst s ! v) < INF_dbl}
     \<and> (\<forall>v < length g. distv (fst s ! v) \<le> INF_dbl)
     \<and> (\<forall>v < length g. \<not> visited (fst s ! v) \<and> distv (fst s ! v) < INF_dbl \<longrightarrow>
           (\<exists>p < length g. path (fst s ! v) = Some p \<and> visited (fst s ! p)
              \<and> (\<exists>e \<in> set (adj (g ! p)). dest e = v \<and> weight e = distv (fst s ! v))))
     \<and> (\<forall>p < length g. visited (fst s ! p) \<and> p \<notin> X \<longrightarrow>
           (\<forall>e \<in> set (adj (g ! p)). \<not> visited (fst s ! dest e) \<longrightarrow> distv (fst s ! dest e) \<le> weight e))
     \<and> (\<forall>v < length g. visited (fst s ! v) \<and> v \<noteq> 0 \<longrightarrow>
           (\<exists>p < length g. path (fst s ! v) = Some p \<and> visited (fst s ! p) \<and> p \<noteq> v
              \<and> norm_edge p v (distv (fst s ! v)) \<in> uedges g))"

text \<open>What relaxations do to a graph: visited vertices stay as they are, distances do not grow.\<close>

definition relaxed :: "'a graph \<Rightarrow> 'a graph \<Rightarrow> bool" where
  "relaxed h h' \<longleftrightarrow> length h' = length h
     \<and> (\<forall>v < length h. visited (h' ! v) = visited (h ! v) \<and> (visited (h ! v) \<longrightarrow> h' ! v = h ! v)
           \<and> distv (h' ! v) \<le> distv (h ! v))"

text \<open>An edge whose destination, if unvisited, is no further than the weight of the edge.\<close>

definition settled :: "edge \<Rightarrow> 'a graph \<times> pqueue \<Rightarrow> bool" where
  "settled e s \<longleftrightarrow> (\<not> visited (fst s ! dest e) \<longrightarrow> distv (fst s ! dest e) \<le> weight e)"

text \<open>The tree built so far: part of a minimum spanning tree, and spanning the visited vertices.\<close>

definition prim_tree_ok :: "'a graph \<Rightarrow> 'a graph \<Rightarrow> bool" where
  "prim_tree_ok g h \<longleftrightarrow> extendable g (tree_of h) \<and> card (tree_of h) + 1 = card (vis h)
     \<and> tree_weight (tree_of h) = (\<Sum>v \<in> vis h - {0}. distv (h ! v))
     \<and> (\<forall>v \<in> vis h. (0, v) \<in> (links (tree_of h))\<^sup>*)"

text \<open>Two vertices linked by an edge whose weight is the largest \<open>double\<close>.\<close>

definition inf_pair :: "string graph" where
  "inf_pair =
     (let g = snd (addVertex ''A'' []);
          g = snd (addVertex ''B'' g);
          g = snd (addBidirectionalEdge ''A'' ''B'' INF_dbl g)
      in g)"

section \<open>Sequences of disjoint-set operations\<close>

text \<open>\<open>makeSet\<close> on each vertex: every vertex becomes a set of its own.\<close>

definition make_sets :: "'a graph \<Rightarrow> 'a graph" where
  "make_sets g = fold makeSet [0..<length g] g"

text \<open>
  A sequence of union operations, each given by two vertices: \<open>linkSets\<close> on each pair
  in turn, every call working on the structure that the call before it has left.
\<close>

fun unions :: "(vref \<times> vref) list \<Rightarrow> 'a graph \<Rightarrow> (error + 'a graph) option" where
  "unions [] g = Some (Inr g)"
| "unions ((x, y) # ops) g = bind_res (linkSets x y g) (\<lambda>g'. unions ops g')"

text \<open>
  Every union of the sequence joins two distinct sets: when its turn comes, \<open>findSet\<close>
  gives its two vertices different representatives.
\<close>

fun joining :: "(vref \<times> vref) list \<Rightarrow> 'a graph \<Rightarrow> bool" where
  "joining [] g = True"
| "joining ((x, y) # ops) g =
     (case findSet g x of
        Some (Inr (i, g1)) \<Rightarrow>
          (case findSet g y of
             Some (Inr (j, g2)) \<Rightarrow>
               i \<noteq> j \<and> (case linkSets x y g of Some (Inr g') \<Rightarrow> joining ops g' | _ \<Rightarrow> False)
           | _ \<Rightarrow> False)
      | _ \<Rightarrow> False)"

text \<open>The representative roots: the vertices \<open>x\<close> with \<open>findSet(x) = x\<close>, and their number.\<close>

definition is_root :: "'a graph \<Rightarrow> vref \<Rightarrow> bool" where
  "is_root g x = (case findSet g x of Some (Inr (r, g')) \<Rightarrow> r = x | _ \<Rightarrow> False)"

definition num_roots :: "'a graph \<Rightarrow> nat" where
  "num_roots g = length (filter (is_root g) [0..<length g])"

text \<open>
  No cycles: the sets are followed by a label for each vertex, all labels different at
  the start. Each union of the sequence has two vertices with different labels when its
  turn comes, and then gives the label of the second to the set of the first.
\<close>

fun acyclic_unions :: "(vref \<times> vref) list \<Rightarrow> (vref \<Rightarrow> vref) \<Rightarrow> bool" where
  "acyclic_unions [] lab = True"
| "acyclic_unions ((x, y) # ops) lab =
     (lab x \<noteq> lab y \<and> acyclic_unions ops (merge_into lab (lab x) (lab y)))"

section \<open>Notions used to compare Kruskal's algorithm with Prim's\<close>

text \<open>
  The sum of the weights of the edges whose \<open>selected\<close> flag is set, and the sum of the
  distances of the vertices other than vertex 0.
\<close>

definition selected_weight :: "'a graph \<Rightarrow> real" where
  "selected_weight g = sum_list (map weight (filter selected (concat (map adj g))))"

definition dist_sum :: "'a graph \<Rightarrow> real" where
  "dist_sum g = (\<Sum>v = 1..<length g. distv (g ! v))"

text \<open>The undirected edges behind the selected edges: the tree that \<open>calculateKruskal\<close> chooses.\<close>

definition kruskal_tree :: "'a graph \<Rightarrow> uedge set" where
  "kruskal_tree g = {norm_edge u (dest e) (weight e) | u e.
                       u < length g \<and> e \<in> set (adj (g ! u)) \<and> selected e \<and> u \<noteq> dest e}"

text \<open>The undirected edges behind those edges of \<open>S\<close> that go to a vertex further on.\<close>

definition ktree :: "'a graph \<Rightarrow> eref set \<Rightarrow> uedge set" where
  "ktree g S = (\<lambda>r. norm_edge (fst r) (dest (the_edge g r)) (weight (the_edge g r)))
                 ` {r \<in> S. fst r < dest (the_edge g r)}"

text \<open>
  The state of the third loop of \<open>calculateKruskal\<close> on the graph \<open>g\<close>, with \<open>S\<close> the
  selected edges and \<open>ds\<close> the edges gone through: two vertices are in one set exactly
  when the chosen edges connect them; the chosen edges are part of a minimum spanning
  tree; the counter counts them; every edge gone through and every selected edge has
  both ends in one set; the selected edges are the chosen ones and their reverses.
\<close>

definition kruskal_inv :: "'a graph \<Rightarrow> (vref \<Rightarrow> vref) \<Rightarrow> nat \<Rightarrow> eref set \<Rightarrow> eref list \<Rightarrow> bool" where
  "kruskal_inv g f k S ds \<longleftrightarrow>
     (\<forall>x < length g. \<forall>y < length g. f x = f y \<longleftrightarrow> (x, y) \<in> (links (ktree g S))\<^sup>*)
     \<and> extendable g (ktree g S)
     \<and> card (ktree g S) = k
     \<and> card {x. x < length g \<and> f x = x} + k = length g
     \<and> (\<forall>r \<in> set ds. f (fst r) = f (dest (the_edge g r)))
     \<and> finite S
     \<and> (\<Sum>r \<in> S. weight (the_edge g r)) = 2 * tree_weight (ktree g S)
     \<and> (\<forall>r \<in> S. valid_eref g r \<and> f (fst r) = f (dest (the_edge g r))
           \<and> (fst r < dest (the_edge g r)
               \<or> (\<exists>e \<in> S. fst e < dest (the_edge g e) \<and> reverse (the_edge g e) = Some r)))"

text \<open>
  Three vertices in a chain, the first edge as heavy as the largest \<open>double\<close>.
\<close>

definition inf_chain :: "string graph" where
  "inf_chain =
     (let g = snd (addVertex ''A'' []);
          g = snd (addVertex ''B'' g);
          g = snd (addVertex ''C'' g);
          g = snd (addBidirectionalEdge ''A'' ''B'' INF_dbl g);
          g = snd (addBidirectionalEdge ''B'' ''C'' 1 g)
      in g)"

section \<open>The factorial functions agree\<close>

lemma factorialDP_unfold:
  "factorialDP n =
     (if n = 0 \<or> n = 1 then Some 1
      else if dp_size \<le> unat n then None
      else map_option (\<lambda>r. n * r) (factorialDP (n - 1)))"
  by (subst factorialDP.simps) (simp add: Let_def)

lemma unat_pred_less: "n \<noteq> 0 \<Longrightarrow> unat n < k \<Longrightarrow> unat (n - 1) < k" for n :: ulong
  using measure_unat [of n] by simp

text \<open>
  C10. For every \<open>n\<close> below 100000, \<open>factorialDP n\<close> returns, and returns the value of
  \<open>factorialRecurs n\<close>: the memo array is zeroed on every call, the lookup never hits,
  and the same product is computed in 64-bit arithmetic.
\<close>

theorem factorialDP_eq_factorialRecurs:
  "unat n < 100000 \<Longrightarrow> factorialDP n = Some (factorialRecurs n)"
proof (induction n rule: factorialRecurs.induct)
  case (1 n)
  show ?case
  proof (cases "n = 0 \<or> n = 1")
    case True
    then show ?thesis
      by (subst factorialDP_unfold, subst factorialRecurs.simps) simp
  next
    case False
    then have "unat (n - 1) < 100000"
      using "1.prems" unat_pred_less by blast
    with "1.IH" False have "factorialDP (n - 1) = Some (factorialRecurs (n - 1))"
      by blast
    with False "1.prems" show ?thesis
      by (subst factorialDP_unfold, subst factorialRecurs.simps) (simp add: dp_size_def)
  qed
qed

theorem factorialDP_eq_factorialRecurs_witness:
  "unat (5 :: ulong) < 100000 \<and> factorialDP 5 = Some (factorialRecurs 5)
   \<and> factorialRecurs 5 = 120"
proof -
  have "factorialRecurs (5 :: ulong) = 120"
    by (simp add: factorialRecurs.simps)
  then show ?thesis
    using factorialDP_eq_factorialRecurs [of 5] by simp
qed

section \<open>Building the graph\<close>

lemma findFrom_None: "findFrom k g i = None \<longleftrightarrow> (\<forall>v \<in> set g. info v \<noteq> i)"
  by (induction g arbitrary: k) auto

lemma findFrom_Some:
  "findFrom k g i = Some j \<Longrightarrow> k \<le> j \<and> j - k < length g \<and> info (g ! (j - k)) = i"
proof (induction g arbitrary: k)
  case Nil
  then show ?case by simp
next
  case (Cons v vs)
  show ?case
  proof (cases "info v = i")
    case True
    with Cons.prems show ?thesis by simp
  next
    case False
    with Cons.prems have "findFrom (Suc k) vs i = Some j" by simp
    from Cons.IH [OF this] have "Suc k \<le> j" "j - Suc k < length vs" "info (vs ! (j - Suc k)) = i"
      by auto
    then show ?thesis by (auto simp: nth_Cons')
  qed
qed

lemma findVertex_None: "findVertex g i = None \<longleftrightarrow> (\<forall>v \<in> set g. info v \<noteq> i)"
  by (simp add: findVertex_def findFrom_None)

lemma findVertex_Some: "findVertex g i = Some j \<Longrightarrow> j < length g \<and> info (g ! j) = i"
  using findFrom_Some [of 0 g i j] by (simp add: findVertex_def)

text \<open>
  C7. \<open>addVertex c\<close> returns false exactly when a vertex with content \<open>c\<close> is present.
  When it returns true the vertex collection has one new element at its end, with
  content \<open>c\<close> and no edges, and \<open>getNumVertex\<close> has grown by one; when it returns false
  the graph and \<open>getNumVertex\<close> are as before.
\<close>

theorem addVertex_spec:
  "(fst (addVertex c g) = False \<longleftrightarrow> (\<exists>v \<in> set g. info v = c))
   \<and> (fst (addVertex c g) \<longrightarrow>
        (\<exists>v. snd (addVertex c g) = g @ [v] \<and> info v = c \<and> adj v = [])
        \<and> getNumVertex (snd (addVertex c g)) = getNumVertex g + 1)
   \<and> (\<not> fst (addVertex c g) \<longrightarrow>
        snd (addVertex c g) = g
        \<and> getNumVertex (snd (addVertex c g)) = getNumVertex g)"
proof -
  have "findVertex g c \<noteq> None \<longleftrightarrow> (\<exists>v \<in> set g. info v = c)"
    by (simp add: findVertex_None)
  then show ?thesis
    by (simp add: addVertex_def getNumVertex_def Vertex_def)
qed

theorem addVertex_spec_witness:
  "fst (addVertex (7::nat) [Vertex 3]) \<and> \<not> fst (addVertex (3::nat) [Vertex 3])
   \<and> snd (addVertex (7::nat) [Vertex 3]) = [Vertex 3, Vertex 7]
   \<and> getNumVertex (snd (addVertex (7::nat) [Vertex 3])) = 2
   \<and> getNumVertex (snd (addVertex (3::nat) [Vertex 3])) = 1"
  using addVertex_spec [of 7 "[Vertex (3::nat)]"] addVertex_spec [of 3 "[Vertex (3::nat)]"]
  by (simp add: Vertex_def getNumVertex_def addVertex_def findVertex_def)

lemma addBidirectionalEdge_False:
  "fst (addBidirectionalEdge a b w g) = False
   \<longleftrightarrow> (\<forall>v \<in> set g. info v \<noteq> a) \<or> (\<forall>v \<in> set g. info v \<noteq> b)"
proof -
  have "fst (addBidirectionalEdge a b w g) = False
        \<longleftrightarrow> findVertex g a = None \<or> findVertex g b = None"
    by (auto simp: addBidirectionalEdge_def split: option.splits prod.splits)
  then show ?thesis by (simp add: findVertex_None)
qed

lemma addBidirectionalEdge_edges:
  fixes g :: "'a graph" and w :: real
  assumes v1: "v1 < length g" and v2: "v2 < length g"
  defines "k1 \<equiv> length (adj (g ! v1))"
  defines "k2 \<equiv> (if v1 = v2 then Suc (length (adj (g ! v2))) else length (adj (g ! v2)))"
  defines "g1 \<equiv> snd (Vertex_addEdge v1 v2 w g)"
  defines "g2 \<equiv> snd (Vertex_addEdge v2 v1 w g1)"
  defines "g' \<equiv> set_reverse (v2, k2) (v1, k1) (set_reverse (v1, k1) (v2, k2) g2)"
  shows "edge_at g' (v1, k1) = Some \<lparr>orig = v1, dest = v2, weight = w, selected = False, reverse = Some (v2, k2)\<rparr>"
    and "edge_at g' (v2, k2) = Some \<lparr>orig = v2, dest = v1, weight = w, selected = False, reverse = Some (v1, k1)\<rparr>"
    and "length g' = length g"
    and "\<forall>i < length g. info (g' ! i) = info (g ! i)"
  using v1 v2 unfolding g'_def g2_def g1_def k1_def k2_def
  by (auto simp: edge_at_def set_reverse_def Vertex_addEdge_def Edge_def nth_list_update nth_append)

text \<open>
  C6. \<open>addBidirectionalEdge a b w\<close> returns false exactly when no vertex has content
  \<open>a\<close> or no vertex has content \<open>b\<close>. After a call that returned true the graph has an
  edge from the vertex with content \<open>a\<close> to the vertex with content \<open>b\<close> and an edge
  back, each stored at its origin, both of weight \<open>w\<close>, and each holds the pointer to the
  other in \<open>reverse\<close>.
\<close>

theorem addBidirectionalEdge_spec:
  "(fst (addBidirectionalEdge a b w g) = False
      \<longleftrightarrow> (\<forall>v \<in> set g. info v \<noteq> a) \<or> (\<forall>v \<in> set g. info v \<noteq> b))
   \<and> (fst (addBidirectionalEdge a b w g) \<longrightarrow>
        (\<exists>r1 r2 e1 e2. edge_at (snd (addBidirectionalEdge a b w g)) r1 = Some e1
           \<and> edge_at (snd (addBidirectionalEdge a b w g)) r2 = Some e2
           \<and> fst r1 = orig e1 \<and> fst r2 = orig e2
           \<and> info (snd (addBidirectionalEdge a b w g) ! orig e1) = a
           \<and> info (snd (addBidirectionalEdge a b w g) ! dest e1) = b
           \<and> orig e2 = dest e1 \<and> dest e2 = orig e1
           \<and> weight e1 = w \<and> weight e2 = w
           \<and> reverse e1 = Some r2 \<and> reverse e2 = Some r1))"
proof (intro conjI impI)
  show "fst (addBidirectionalEdge a b w g) = False
      \<longleftrightarrow> (\<forall>v \<in> set g. info v \<noteq> a) \<or> (\<forall>v \<in> set g. info v \<noteq> b)"
    by (rule addBidirectionalEdge_False)
next
  let ?g' = "snd (addBidirectionalEdge a b w g)"
  assume ok: "fst (addBidirectionalEdge a b w g)"
  then obtain v1 v2 where f: "findVertex g a = Some v1" "findVertex g b = Some v2"
    by (auto simp: addBidirectionalEdge_def split: option.splits)
  then have v: "v1 < length g" "v2 < length g" "info (g ! v1) = a" "info (g ! v2) = b"
    by (auto dest: findVertex_Some)
  define k1 where "k1 = length (adj (g ! v1))"
  define k2 where "k2 = (if v1 = v2 then Suc (length (adj (g ! v2))) else length (adj (g ! v2)))"
  have g': "?g' = set_reverse (v2, k2) (v1, k1) (set_reverse (v1, k1) (v2, k2)
               (snd (Vertex_addEdge v2 v1 w (snd (Vertex_addEdge v1 v2 w g)))))"
    using f v by (auto simp: addBidirectionalEdge_def Vertex_addEdge_def k1_def k2_def)
  note E = addBidirectionalEdge_edges [OF v(1,2), of w, folded k1_def k2_def, folded g']
  let ?e1 = "\<lparr>orig = v1, dest = v2, weight = w, selected = False, reverse = Some (v2, k2)\<rparr>"
  let ?e2 = "\<lparr>orig = v2, dest = v1, weight = w, selected = False, reverse = Some (v1, k1)\<rparr>"
  have "edge_at ?g' (v1, k1) = Some ?e1" "edge_at ?g' (v2, k2) = Some ?e2"
    using E(1,2) by simp_all
  moreover have "info (?g' ! v1) = a" "info (?g' ! v2) = b"
    using E(4) v by simp_all
  ultimately show "\<exists>r1 r2 e1 e2. edge_at ?g' r1 = Some e1
           \<and> edge_at ?g' r2 = Some e2
           \<and> fst r1 = orig e1 \<and> fst r2 = orig e2
           \<and> info (?g' ! orig e1) = a
           \<and> info (?g' ! dest e1) = b
           \<and> orig e2 = dest e1 \<and> dest e2 = orig e1
           \<and> weight e1 = w \<and> weight e2 = w
           \<and> reverse e1 = Some r2 \<and> reverse e2 = Some r1"
    by (intro exI [of _ "(v1, k1)"] exI [of _ "(v2, k2)"] exI [of _ ?e1] exI [of _ ?e2]) simp
qed

theorem addBidirectionalEdge_spec_witness:
  "fst (addBidirectionalEdge (3::nat) 7 2 [Vertex 3, Vertex 7])
   \<and> \<not> fst (addBidirectionalEdge (3::nat) 8 2 [Vertex 3, Vertex 7])
   \<and> (\<exists>r1 r2 e1 e2.
         edge_at (snd (addBidirectionalEdge (3::nat) 7 2 [Vertex 3, Vertex 7])) r1 = Some e1
       \<and> edge_at (snd (addBidirectionalEdge (3::nat) 7 2 [Vertex 3, Vertex 7])) r2 = Some e2
       \<and> weight e1 = 2 \<and> weight e2 = 2 \<and> reverse e1 = Some r2 \<and> reverse e2 = Some r1)"
proof -
  have ok: "fst (addBidirectionalEdge (3::nat) 7 2 [Vertex 3, Vertex 7])"
    and no: "\<not> fst (addBidirectionalEdge (3::nat) 8 2 [Vertex 3, Vertex 7])"
    by (simp_all add: addBidirectionalEdge_def findVertex_def Vertex_def Vertex_addEdge_def)
  from addBidirectionalEdge_spec [of 3 7 2 "[Vertex (3::nat), Vertex 7]"] ok
  have "\<exists>r1 r2 e1 e2.
         edge_at (snd (addBidirectionalEdge (3::nat) 7 2 [Vertex 3, Vertex 7])) r1 = Some e1
       \<and> edge_at (snd (addBidirectionalEdge (3::nat) 7 2 [Vertex 3, Vertex 7])) r2 = Some e2
       \<and> weight e1 = 2 \<and> weight e2 = 2 \<and> reverse e1 = Some r2 \<and> reverse e2 = Some r1"
    by blast
  with ok no show ?thesis by blast
qed

section \<open>The loop of Prim's algorithm returns\<close>

lemma fold_inv:
  assumes "P s" and "\<And>x s. x \<in> set xs \<Longrightarrow> P s \<Longrightarrow> P (f x s)"
  shows "P (fold f xs s)"
  using assms by (induction xs arbitrary: s) auto

lemma nth_upd: "j < length xs \<Longrightarrow> xs[i := x] ! j = (if i = j then x else xs ! j)"
  by (simp add: nth_list_update)

lemma min_q_in: "min_q g m xs \<in> insert m (set xs)"
  by (induction xs arbitrary: m) auto

lemma min_q_le: "distv (g ! min_q g m xs) \<le> distv (g ! m) \<and> (\<forall>x \<in> set xs. distv (g ! min_q g m xs) \<le> distv (g ! x))"
proof (induction xs arbitrary: m)
  case Nil
  then show ?case by simp
next
  case (Cons x xs)
  from Cons.IH [of "if distv (g ! x) < distv (g ! m) then x else m"]
  show ?case by (auto split: if_splits)
qed

lemma extractMin_in:
  assumes "q \<noteq> []"
  shows "fst (extractMin g q) \<in> set q"
    and "length (snd (extractMin g q)) < length q"
    and "set (snd (extractMin g q)) \<subseteq> set q"
    and "\<forall>x \<in> set q. distv (g ! fst (extractMin g q)) \<le> distv (g ! x)"
proof -
  from assms obtain x xs where q: "q = x # xs" by (cases q) auto
  have m: "min_q g x xs \<in> set q"
    using min_q_in [of g x xs] q by simp
  have e: "extractMin g q = (min_q g x xs, remove1 (min_q g x xs) q)"
    by (simp add: extractMin_def q Let_def)
  from m show "fst (extractMin g q) \<in> set q"
    by (simp add: e)
  from m assms show "length (snd (extractMin g q)) < length q"
    by (simp add: e length_remove1)
  show "set (snd (extractMin g q)) \<subseteq> set q"
    using set_remove1_subset [of "min_q g x xs" q] by (simp add: e)
  show "\<forall>x \<in> set q. distv (g ! fst (extractMin g q)) \<le> distv (g ! x)"
    using min_q_le [of g x xs] unfolding e by (simp add: q)
qed

lemma far_update_in:
  assumes "d < length g" "distv (g ! d) = INF_dbl" "distv v' \<noteq> INF_dbl"
  shows "card (far (g[d := v'])) < card (far g)"
proof -
  have "far (g[d := v']) = far g - {d}"
    using assms by (auto simp: far_def nth_upd split: if_splits)
  moreover have "d \<in> far g" "finite (far g)"
    using assms by (auto simp: far_def)
  moreover from this have "card (far g - {d}) < card (far g)"
    by (intro card_Diff1_less)
  ultimately show ?thesis
    by simp
qed

lemma far_update_out:
  assumes "d < length g" "distv (g ! d) \<noteq> INF_dbl" "distv v' \<noteq> INF_dbl"
  shows "far (g[d := v']) = far g"
  using assms by (auto simp: far_def nth_upd split: if_splits)

lemma far_update_visited: "far (g[c := (g ! c)\<lparr>visited := b\<rparr>]) = far g"
  by (auto simp: far_def nth_upd split: if_splits)

lemma reset_adj: "map prim_reset g' = map prim_reset g \<Longrightarrow> map adj g' = map adj g"
proof -
  assume a: "map prim_reset g' = map prim_reset g"
  have "map adj h = map adj (map prim_reset h)" for h :: "'a graph"
    by (simp add: prim_reset_def)
  with a show ?thesis by metis
qed

lemma reset_length: "map prim_reset g' = map prim_reset g \<Longrightarrow> length g' = length g"
  by (metis length_map)

lemma reset_nth_adj:
  "map prim_reset g' = map prim_reset g \<Longrightarrow> v < length g \<Longrightarrow> adj (g' ! v) = adj (g ! v)"
  using reset_adj [of g' g] reset_length [of g' g] by (metis nth_map)

lemma wf_graph_cong: "map adj g' = map adj g \<Longrightarrow> wf_graph g' = wf_graph g"
proof -
  assume a: "map adj g' = map adj g"
  then have l: "length g' = length g" by (metis length_map)
  have "adj (g' ! v) = adj (g ! v)" if "v < length g" for v
    using a that l by (metis nth_map)
  then show ?thesis by (simp add: wf_graph_def l)
qed

lemma map_update_same: "i < length g \<Longrightarrow> f v' = f (g ! i) \<Longrightarrow> map f (g[i := v']) = map f g"
  by (simp add: map_update list_update_same_conv)

lemma prim_relax_keeps:
  assumes k: "relax_keeps g0 m s" and d: "dest e < length g0"
  shows "relax_keeps g0 m (prim_relax c e s)"
proof -
  obtain g q where s: "s = (g, q)" by (cases s)
  from k s have ok: "prim_ok g q" and i: "map prim_reset g = map prim_reset g0"
    and m: "prim_measure g q \<le> m"
    by (simp_all add: relax_keeps_def)
  from i have l: "length g = length g0" by (rule reset_length)
  with d have dl: "dest e < length g" by simp
  let ?d = "dest e"
  let ?v' = "(g ! ?d)\<lparr>distv := weight e, path := Some c\<rparr>"
  let ?g' = "g[?d := ?v']"
  show ?thesis
  proof (cases "\<not> visited (g ! ?d) \<and> weight e < distv (g ! ?d)")
    case False
    then have "prim_relax c e s = s"
      by (auto simp: prim_relax_def s Let_def)
    with k show ?thesis by simp
  next
    case True
    from ok dl have le: "distv (g ! ?d) \<le> INF_dbl" by (simp add: prim_ok_def)
    with True have w: "weight e < INF_dbl" "weight e \<noteq> INF_dbl" by auto
    have "map prim_reset ?g' = map prim_reset g"
      using dl by (intro map_update_same) (simp_all add: prim_reset_def)
    with i have i': "map prim_reset ?g' = map prim_reset g0" by simp
    have wf: "wf_graph ?g'"
      using ok wf_graph_cong [of ?g' g] reset_adj [OF i] reset_adj [OF i']
      by (simp add: prim_ok_def)
    have dle: "\<forall>v < length ?g'. distv (?g' ! v) \<le> INF_dbl"
      using ok w by (auto simp: prim_ok_def nth_upd)
    show ?thesis
    proof (cases "distv (g ! ?d) = INF_dbl")
      case inf: True
      then have r: "prim_relax c e s = (?g', q @ [?d])"
        using True by (simp add: prim_relax_def s Let_def insert_q_def)
      have "card (far ?g') < card (far g)"
        using far_update_in [OF dl inf, of ?v'] w by simp
      then have "prim_measure ?g' (q @ [?d]) \<le> prim_measure g q"
        by (simp add: prim_measure_def)
      with m wf dle i' ok dl show ?thesis
        by (simp add: relax_keeps_def r prim_ok_def)
    next
      case fin: False
      then have r: "prim_relax c e s = (?g', q)"
        using True by (simp add: prim_relax_def s Let_def decreaseKey_def)
      have "far ?g' = far g"
        using far_update_out [OF dl fin, of ?v'] w by simp
      then have "prim_measure ?g' q = prim_measure g q"
        by (simp add: prim_measure_def)
      with m wf dle i' ok dl show ?thesis
        by (simp add: relax_keeps_def r prim_ok_def)
    qed
  qed
qed

lemma prim_step_keeps:
  assumes ok: "prim_ok g q" and ne: "q \<noteq> []"
  shows "prim_ok (fst (prim_step g q)) (snd (prim_step g q))"
    and "map prim_reset (fst (prim_step g q)) = map prim_reset g"
    and "prim_measure (fst (prim_step g q)) (snd (prim_step g q)) < prim_measure g q"
proof -
  let ?c = "fst (extractMin g q)" and ?q1 = "snd (extractMin g q)"
  let ?g1 = "g[?c := (g ! ?c)\<lparr>visited := True\<rparr>]"
  have st: "prim_step g q = fold (prim_relax ?c) (adj (?g1 ! ?c)) (?g1, ?q1)"
    by (simp add: prim_step_def Let_def split: prod.splits)
  from extractMin_in [OF ne, of g] ok have c: "?c < length g"
    and q1: "length ?q1 < length q" "set ?q1 \<subseteq> set q"
    by (auto simp: prim_ok_def)
  have i1: "map prim_reset ?g1 = map prim_reset g"
    using c by (intro map_update_same) (simp_all add: prim_reset_def)
  have ok1: "prim_ok ?g1 ?q1"
    using ok q1 wf_graph_cong [OF reset_adj [OF i1]] by (auto simp: prim_ok_def nth_upd)
  have m1: "prim_measure ?g1 ?q1 \<le> prim_measure g q - 1"
    using q1 by (simp add: prim_measure_def far_update_visited)
  have start: "relax_keeps g (prim_measure g q - 1) (?g1, ?q1)"
    using ok1 i1 m1 by (simp add: relax_keeps_def)
  have dests: "dest e < length g" if "e \<in> set (adj (?g1 ! ?c))" for e
    using that ok c by (auto simp: prim_ok_def wf_graph_def)
  have "relax_keeps g (prim_measure g q - 1) (fold (prim_relax ?c) (adj (?g1 ! ?c)) (?g1, ?q1))"
    by (rule fold_inv [where P = "relax_keeps g (prim_measure g q - 1)", OF start])
       (rule prim_relax_keeps, assumption, rule dests)
  then have k: "relax_keeps g (prim_measure g q - 1) (prim_step g q)"
    by (simp add: st)
  then show "prim_ok (fst (prim_step g q)) (snd (prim_step g q))"
    and "map prim_reset (fst (prim_step g q)) = map prim_reset g"
    by (simp_all add: relax_keeps_def)
  have "0 < prim_measure g q"
    using ne by (simp add: prim_measure_def)
  moreover from k have "prim_measure (fst (prim_step g q)) (snd (prim_step g q)) \<le> prim_measure g q - 1"
    by (simp add: relax_keeps_def)
  ultimately show "prim_measure (fst (prim_step g q)) (snd (prim_step g q)) < prim_measure g q"
    by linarith
qed

text \<open>
  The rule for the loop: an invariant that implies \<open>prim_ok\<close> and that every round
  keeps holds when the loop ends, and the loop does end.
\<close>

lemma prim_loop_rule:
  assumes init: "I g q"
    and ok: "\<And>g q. I g q \<Longrightarrow> prim_ok g q"
    and step: "\<And>g q. I g q \<Longrightarrow> q \<noteq> [] \<Longrightarrow> I (fst (prim_step g q)) (snd (prim_step g q))"
  shows "\<exists>g'. prim_loop g q = Some g' \<and> I g' []"
  using init
proof (induction "prim_measure g q" arbitrary: g q rule: less_induct)
  case less
  show ?case
  proof (cases "q = []")
    case True
    with less.prems show ?thesis
      by (subst prim_loop.simps) simp
  next
    case False
    let ?g' = "fst (prim_step g q)" and ?q' = "snd (prim_step g q)"
    have "prim_measure ?g' ?q' < prim_measure g q"
      using prim_step_keeps(3) [OF ok [OF less.prems] False] .
    moreover have "I ?g' ?q'"
      using step [OF less.prems False] .
    ultimately obtain r where "prim_loop ?g' ?q' = Some r" "I r []"
      using less.hyps by blast
    with False show ?thesis
      by (subst prim_loop.simps) (simp add: split_beta)
  qed
qed


lemma INF_dbl_pos: "0 < INF_dbl"
  by (simp add: INF_dbl_def)

lemma calculatePrim_unfold:
  "g \<noteq> [] \<Longrightarrow> calculatePrim g = map_option Inr (prim_loop (prim_start g) [0])"
  by (simp add: calculatePrim_def prim_start_def Let_def insert_q_def)

lemma calculatePrim_empty: "calculatePrim [] = Some (Inl OutOfRange)"
  by (simp add: calculatePrim_def)

lemma prim_start_reset: "map prim_reset (prim_start g) = map prim_reset g"
proof (cases "g = []")
  case True
  then show ?thesis by (simp add: prim_start_def)
next
  case False
  then have "map prim_reset (prim_start g) = map prim_reset (map prim_reset g)"
    unfolding prim_start_def
    by (intro map_update_same) (simp_all add: prim_reset_def)
  then show ?thesis by (simp add: prim_reset_def)
qed

lemma prim_start_ok:
  assumes "wf_graph g" "g \<noteq> []"
  shows "prim_ok (prim_start g) [0]"
proof -
  have "wf_graph (prim_start g)"
    using assms wf_graph_cong [OF reset_adj [OF prim_start_reset [of g]]] by simp
  moreover have "distv (prim_start g ! v) \<le> INF_dbl" if "v < length g" for v
    using that INF_dbl_pos by (simp add: prim_start_def nth_upd prim_reset_def)
  ultimately show ?thesis
    using assms reset_length [OF prim_start_reset [of g]] by (simp add: prim_ok_def)
qed

text \<open>The loop returns on the graphs that the construction functions build, and changes
  nothing but the three fields that \<open>calculatePrim\<close> resets.\<close>

lemma calculatePrim_returns:
  assumes "wf_graph g" "g \<noteq> []"
  shows "\<exists>g'. calculatePrim g = Some (Inr g') \<and> map prim_reset g' = map prim_reset g"
proof -
  let ?I = "\<lambda>g' q'. prim_ok g' q' \<and> map prim_reset g' = map prim_reset g"
  have "\<exists>g'. prim_loop (prim_start g) [0] = Some g' \<and> ?I g' []"
  proof (rule prim_loop_rule [where I = ?I])
    show "?I (prim_start g) [0]"
      using prim_start_ok [OF assms] prim_start_reset by blast
  next
    fix g' q' assume "?I g' q'" then show "prim_ok g' q'" by simp
  next
    fix g' q' assume "?I g' q'" and "q' \<noteq> []"
    then show "?I (fst (prim_step g' q')) (snd (prim_step g' q'))"
      using prim_step_keeps(1,2) [of g' q'] by simp
  qed
  then show ?thesis
    using assms by (auto simp: calculatePrim_unfold)
qed

lemma calculatePrim_reset_cong:
  assumes "map prim_reset g' = map prim_reset g"
  shows "calculatePrim g' = calculatePrim g"
proof -
  have "g' = [] \<longleftrightarrow> g = []"
    using reset_length [OF assms] by auto
  then show ?thesis
    using assms by (simp add: calculatePrim_def Let_def)
qed

text \<open>
  C5. On every graph with a vertex (and well-formed, as the construction functions
  build it) \<open>calculatePrim\<close> returns, and a second call on the graph it left returns
  that very graph again: the same distance, parent and every other field on every
  vertex.
\<close>

theorem calculatePrim_idempotent:
  assumes "wf_graph g" and "g \<noteq> []"
  shows "\<exists>g1 g2. calculatePrim g = Some (Inr g1) \<and> calculatePrim g1 = Some (Inr g2)
              \<and> map distv g2 = map distv g1 \<and> map path g2 = map path g1"
proof -
  from calculatePrim_returns [OF assms] obtain g1
    where g1: "calculatePrim g = Some (Inr g1)" "map prim_reset g1 = map prim_reset g"
    by blast
  from calculatePrim_reset_cong [OF g1(2)] g1(1) have "calculatePrim g1 = Some (Inr g1)"
    by simp
  with g1(1) show ?thesis by blast
qed


lemma scenario_eq:
  "scenario =
    [\<lparr>info = ''A'',
      adj = [\<lparr>orig = 0, dest = 1, weight = 1, selected = False, reverse = Some (1, 0)\<rparr>,
             \<lparr>orig = 0, dest = 2, weight = 4, selected = False, reverse = Some (2, 1)\<rparr>],
      visited = False, distv = 0, path = None, queueIndex = 0, idv = 0, rank = 0\<rparr>,
     \<lparr>info = ''B'',
      adj = [\<lparr>orig = 1, dest = 0, weight = 1, selected = False, reverse = Some (0, 0)\<rparr>,
             \<lparr>orig = 1, dest = 2, weight = 2, selected = False, reverse = Some (2, 0)\<rparr>],
      visited = False, distv = 0, path = None, queueIndex = 0, idv = 0, rank = 0\<rparr>,
     \<lparr>info = ''C'',
      adj = [\<lparr>orig = 2, dest = 1, weight = 2, selected = False, reverse = Some (1, 1)\<rparr>,
             \<lparr>orig = 2, dest = 0, weight = 4, selected = False, reverse = Some (0, 1)\<rparr>,
             \<lparr>orig = 2, dest = 3, weight = 3, selected = False, reverse = Some (3, 0)\<rparr>],
      visited = False, distv = 0, path = None, queueIndex = 0, idv = 0, rank = 0\<rparr>,
     \<lparr>info = ''D'',
      adj = [\<lparr>orig = 3, dest = 2, weight = 3, selected = False, reverse = Some (2, 2)\<rparr>],
      visited = False, distv = 0, path = None, queueIndex = 0, idv = 0, rank = 0\<rparr>]"
  by (simp add: scenario_def addVertex_def addBidirectionalEdge_def findVertex_def Vertex_def
        Vertex_addEdge_def set_reverse_def Edge_def Let_def)

lemma wf_graph_scenario: "wf_graph scenario"
  by (simp add: wf_graph_def scenario_eq All_less_Suc)

theorem calculatePrim_idempotent_witness:
  "wf_graph scenario \<and> scenario \<noteq> []
   \<and> (\<exists>g1 g2. calculatePrim scenario = Some (Inr g1) \<and> calculatePrim g1 = Some (Inr g2)
              \<and> map distv g2 = map distv g1 \<and> map path g2 = map path g1)"
proof -
  have ne: "scenario \<noteq> []" by (simp add: scenario_eq)
  from calculatePrim_idempotent [OF wf_graph_scenario ne] wf_graph_scenario ne
  show ?thesis by blast
qed

section \<open>Prim's algorithm stays inside what vertex 0 reaches\<close>

lemma prim_step_unfold:
  assumes "prim_ok g q" "q \<noteq> []"
  shows "prim_step g q =
           fold (prim_relax (fst (extractMin g q))) (adj (g ! fst (extractMin g q)))
             (g[fst (extractMin g q) := (g ! fst (extractMin g q))\<lparr>visited := True\<rparr>],
              snd (extractMin g q))"
proof -
  have "fst (extractMin g q) < length g"
    using extractMin_in(1) [OF assms(2), of g] assms(1) by (simp add: prim_ok_def)
  then show ?thesis
    by (simp add: prim_step_def Let_def split_beta)
qed

lemma prim_step_inv:
  assumes ok: "prim_ok g q" and ne: "q \<noteq> []"
    and start: "P (g[fst (extractMin g q) := (g ! fst (extractMin g q))\<lparr>visited := True\<rparr>],
                   snd (extractMin g q))"
    and rel: "\<And>e s. e \<in> set (adj (g ! fst (extractMin g q))) \<Longrightarrow> P s
                \<Longrightarrow> P (prim_relax (fst (extractMin g q)) e s)"
  shows "P (prim_step g q)"
  unfolding prim_step_unfold [OF ok ne]
  by (rule fold_inv [where P = P, OF start]) (rule rel)

lemma prim_relax_cases:
  "prim_relax c e (g, q) = (g, q)
   \<or> (\<not> visited (g ! dest e) \<and> weight e < distv (g ! dest e)
      \<and> fst (prim_relax c e (g, q)) = g[dest e := (g ! dest e)\<lparr>distv := weight e, path := Some c\<rparr>]
      \<and> snd (prim_relax c e (g, q)) = (if distv (g ! dest e) = INF_dbl then q @ [dest e] else q))"
  by (simp add: prim_relax_def Let_def insert_q_def decreaseKey_def)

lemma reaches_step: "reaches g 0 c \<Longrightarrow> c < length g \<Longrightarrow> e \<in> set (adj (g ! c)) \<Longrightarrow> reaches g 0 (dest e)"
proof -
  assume r: "reaches g 0 c" and c: "c < length g" and e: "e \<in> set (adj (g ! c))"
  then have "(c, dest e) \<in> edge_rel g"
    by (auto simp: edge_rel_def)
  with r show ?thesis
    unfolding reaches_def by (rule rtrancl_into_rtrancl)
qed

lemma inside_relax:
  assumes i: "inside g s" and d: "reaches g 0 (dest e)"
  shows "inside g (prim_relax c e s)"
proof -
  obtain h q where s: "s = (h, q)" by (cases s)
  from prim_relax_cases [of c e h q] show ?thesis
  proof
    assume "prim_relax c e (h, q) = (h, q)"
    with i s show ?thesis by simp
  next
    assume a: "\<not> visited (h ! dest e) \<and> weight e < distv (h ! dest e)
      \<and> fst (prim_relax c e (h, q)) = h[dest e := (h ! dest e)\<lparr>distv := weight e, path := Some c\<rparr>]
      \<and> snd (prim_relax c e (h, q)) = (if distv (h ! dest e) = INF_dbl then q @ [dest e] else q)"
    from i s have l: "length h = length g" and q: "\<forall>x \<in> set q. reaches g 0 x"
      and o: "\<forall>x < length g. \<not> reaches g 0 x \<longrightarrow> distv (h ! x) = INF_dbl \<and> path (h ! x) = None"
      by (simp_all add: inside_def)
    have "\<forall>x \<in> set (snd (prim_relax c e (h, q))). reaches g 0 x"
      using a q d by auto
    moreover have "\<forall>x < length g. \<not> reaches g 0 x \<longrightarrow>
        distv (fst (prim_relax c e (h, q)) ! x) = INF_dbl \<and> path (fst (prim_relax c e (h, q)) ! x) = None"
      using a o d l by (auto simp: nth_upd)
    moreover have "length (fst (prim_relax c e (h, q))) = length g"
      using a l by simp
    ultimately show ?thesis
      by (simp add: inside_def s)
  qed
qed

lemma inside_step:
  assumes ok: "prim_ok h q" and ne: "q \<noteq> []" and r: "map prim_reset h = map prim_reset g"
    and i: "inside g (h, q)"
  shows "inside g (prim_step h q)"
proof (rule prim_step_inv [OF ok ne])
  let ?c = "fst (extractMin h q)"
  from i have l: "length h = length g" by (simp add: inside_def)
  have c: "?c \<in> set q" by (rule extractMin_in(1) [OF ne])
  with i have rc: "reaches g 0 ?c" by (simp add: inside_def)
  from c ok l have cl: "?c < length g" by (simp add: prim_ok_def)
  show "inside g (h[?c := (h ! ?c)\<lparr>visited := True\<rparr>], snd (extractMin h q))"
    using i extractMin_in(3) [OF ne, of h] by (auto simp: inside_def nth_upd)
  fix e s assume e: "e \<in> set (adj (h ! ?c))" and s: "inside g s"
  from e have "e \<in> set (adj (g ! ?c))"
    using reset_nth_adj [OF r cl] by simp
  then have "reaches g 0 (dest e)"
    by (rule reaches_step [OF rc cl])
  with s show "inside g (prim_relax ?c e s)"
    by (rule inside_relax)
qed

text \<open>
  C4. On a well-formed graph with a vertex, \<open>calculatePrim\<close> returns a graph and no
  error, and every vertex that vertex 0 does not reach has distance \<open>INF_dbl\<close> and no
  parent in it.
\<close>

theorem calculatePrim_unreached:
  assumes "wf_graph g" and "g \<noteq> []" and "v < length g" and "\<not> reaches g 0 v"
  shows "\<exists>g'. calculatePrim g = Some (Inr g') \<and> distv (g' ! v) = INF_dbl \<and> path (g' ! v) = None"
proof -
  let ?I = "\<lambda>h q. prim_ok h q \<and> map prim_reset h = map prim_reset g \<and> inside g (h, q)"
  have "\<exists>g'. prim_loop (prim_start g) [0] = Some g' \<and> ?I g' []"
  proof (rule prim_loop_rule [where I = ?I])
    have "reaches g 0 0" by (simp add: reaches_def)
    moreover have "distv (prim_start g ! x) = INF_dbl \<and> path (prim_start g ! x) = None"
      if "x < length g" "\<not> reaches g 0 x" for x
    proof -
      from that \<open>reaches g 0 0\<close> have "x \<noteq> 0" by (cases "x = 0") simp_all
      with that show ?thesis
        by (simp add: prim_start_def nth_upd prim_reset_def)
    qed
    ultimately have "inside g (prim_start g, [0])"
      using reset_length [OF prim_start_reset [of g]] by (simp add: inside_def)
    then show "?I (prim_start g) [0]"
      using prim_start_ok [OF assms(1,2)] prim_start_reset by blast
  next
    fix h q assume "?I h q" then show "prim_ok h q" by simp
  next
    fix h q assume "?I h q" and "q \<noteq> []"
    then show "?I (fst (prim_step h q)) (snd (prim_step h q))"
      using prim_step_keeps(1,2) [of h q] inside_step [of h q g] by simp
  qed
  then obtain g' where "prim_loop (prim_start g) [0] = Some g'" "inside g (g', [])"
    by blast
  with assms show ?thesis
    by (auto simp: calculatePrim_unfold inside_def)
qed

lemma two_apart_eq:
  "two_apart =
     [\<lparr>info = ''A'', adj = [], visited = False, distv = 0, path = None, queueIndex = 0, idv = 0, rank = 0\<rparr>,
      \<lparr>info = ''B'', adj = [], visited = False, distv = 0, path = None, queueIndex = 0, idv = 0, rank = 0\<rparr>]"
  by (simp add: two_apart_def addVertex_def findVertex_def Vertex_def)

lemma two_apart_facts: "wf_graph two_apart" "two_apart \<noteq> []" "1 < length two_apart" "\<not> reaches two_apart 0 1"
proof -
  show "wf_graph two_apart" "two_apart \<noteq> []" "1 < length two_apart"
    by (simp_all add: two_apart_eq wf_graph_def All_less_Suc)
  have "adj (two_apart ! u) = []" if "u < 2" for u
    using that by (auto simp: two_apart_eq less_Suc_eq numeral_2_eq_2)
  then have "edge_rel two_apart = {}"
    by (auto simp: edge_rel_def) (simp add: two_apart_eq)
  then show "\<not> reaches two_apart 0 1"
    by (simp add: reaches_def)
qed

theorem calculatePrim_unreached_witness:
  "wf_graph two_apart \<and> two_apart \<noteq> [] \<and> 1 < length two_apart \<and> \<not> reaches two_apart 0 1
   \<and> (\<exists>g'. calculatePrim two_apart = Some (Inr g') \<and> distv (g' ! 1) = INF_dbl \<and> path (g' ! 1) = None)"
  using calculatePrim_unreached [OF two_apart_facts] two_apart_facts by blast

section \<open>The disjoint-set operations\<close>

lemma uf_relD:
  assumes "uf_rel g f" "x < length g"
  shows "f x < length g" and "path (g ! f x) = Some (f x)"
    and "f x \<noteq> x \<Longrightarrow> rank (g ! x) < rank (g ! f x)"
    and "\<exists>p < length g. path (g ! x) = Some p \<and> f p = f x \<and> (p = x \<longrightarrow> f x = x)
              \<and> (p \<noteq> x \<longrightarrow> rank (g ! x) < rank (g ! p))"
  using assms unfolding uf_rel_def by blast+

lemma uf_rel_root: "uf_rel g f \<Longrightarrow> x < length g \<Longrightarrow> f x = x \<longleftrightarrow> path (g ! x) = Some x"
  using uf_relD(2,4) [of g f x] by auto

lemma uf_rel_idem: "uf_rel g f \<Longrightarrow> x < length g \<Longrightarrow> f (f x) = f x"
  using uf_relD(1,2) [of g f x] uf_rel_root [of g f "f x"] by simp

lemma uf_rel_compress:
  assumes u: "uf_rel g f" and x: "x < length g"
  shows "uf_rel (g[x := (g ! x)\<lparr>path := Some (f x)\<rparr>]) f"
proof (cases "f x = x")
  case True
  then have "path (g ! x) = Some x" using uf_rel_root [OF u x] by simp
  with True have "g[x := (g ! x)\<lparr>path := Some (f x)\<rparr>] = g"
    by (simp add: list_update_same_conv x)
  with u show ?thesis by simp
next
  case False
  let ?g = "g[x := (g ! x)\<lparr>path := Some (f x)\<rparr>]"
  have rk: "rank (?g ! y) = rank (g ! y)" if "y < length g" for y
    using that by (simp add: nth_upd)
  have pth: "path (?g ! y) = (if y = x then Some (f x) else path (g ! y))" if "y < length g" for y
    using that by (auto simp: nth_upd)
  show ?thesis
    unfolding uf_rel_def
  proof (intro allI impI)
    fix y assume "y < length ?g"
    then have y: "y < length g" by simp
    note D = uf_relD [OF u y]
    have fy: "f y \<noteq> x"
      using uf_rel_idem [OF u y] False by auto
    have 1: "f y < length ?g" using D(1) by simp
    have 2: "path (?g ! f y) = Some (f y)"
      using D(1,2) fy by (simp add: pth)
    have 3: "f y \<noteq> y \<longrightarrow> rank (?g ! y) < rank (?g ! f y)"
      using D(1,3) y by (simp add: rk)
    have 4: "\<exists>p < length ?g. path (?g ! y) = Some p \<and> f p = f y \<and> (p = y \<longrightarrow> f y = y)
              \<and> (p \<noteq> y \<longrightarrow> rank (?g ! y) < rank (?g ! p))"
    proof (cases "y = x")
      case True
      have "f x < length g" "f (f x) = f x" "rank (g ! x) < rank (g ! f x)"
        using uf_relD(1,3) [OF u x] uf_rel_idem [OF u x] False by auto
      then show ?thesis
        using True x False by (intro exI [of _ "f x"]) (simp add: pth rk)
    next
      case ne: False
      from D(4) obtain p where "p < length g" "path (g ! y) = Some p" "f p = f y"
        "p = y \<longrightarrow> f y = y" "p \<noteq> y \<longrightarrow> rank (g ! y) < rank (g ! p)" by blast
      then show ?thesis
        using ne y by (intro exI [of _ p]) (simp add: pth rk)
    qed
    from 1 2 3 4
    show "f y < length ?g \<and> path (?g ! f y) = Some (f y)
        \<and> (f y \<noteq> y \<longrightarrow> rank (?g ! y) < rank (?g ! f y))
        \<and> (\<exists>p < length ?g. path (?g ! y) = Some p \<and> f p = f y \<and> (p = y \<longrightarrow> f y = y)
              \<and> (p \<noteq> y \<longrightarrow> rank (?g ! y) < rank (?g ! p)))"
      by blast
  qed
qed

lemma uf_erase_update:
  "i < length g \<Longrightarrow> uf_erase v' = uf_erase (g ! i) \<Longrightarrow> map uf_erase (g[i := v']) = map uf_erase g"
  by (rule map_update_same)

text \<open>\<open>findSet\<close> returns, with the root, and keeps the sets.\<close>

lemma findSet_total:
  assumes u: "uf_rel g f" and x: "x < length g"
  shows "\<exists>g'. findSet g x = Some (Inr (f x, g')) \<and> uf_rel g' f \<and> map uf_erase g' = map uf_erase g
              \<and> map rank g' = map rank g"
  using x
proof (induction "nat (rank (g ! f x) - rank (g ! x))" arbitrary: x rule: less_induct)
  case less
  note x = less.prems
  from uf_relD(4) [OF u x] obtain p where p: "p < length g" "path (g ! x) = Some p" "f p = f x"
    "p = x \<longrightarrow> f x = x" "p \<noteq> x \<longrightarrow> rank (g ! x) < rank (g ! p)" by blast
  show ?case
  proof (cases "p = x")
    case True
    with p have "findSet g x = Some (Inr (f x, g))"
      by (subst findSet.simps) simp
    with u show ?thesis by simp
  next
    case False
    then have fx: "f x \<noteq> x"
      using uf_rel_root [OF u x] p(2) by auto
    then have "rank (g ! x) < rank (g ! f x)"
      using uf_relD(3) [OF u x] by simp
    moreover have "rank (g ! x) < rank (g ! p)" using p(5) False by simp
    ultimately have "nat (rank (g ! f p) - rank (g ! p)) < nat (rank (g ! f x) - rank (g ! x))"
      using p(3) by simp
    from less.hyps [OF this p(1)] obtain g1
      where g1: "findSet g p = Some (Inr (f p, g1))" "uf_rel g1 f" "map uf_erase g1 = map uf_erase g"
        "map rank g1 = map rank g"
      by blast
    let ?g' = "g1[x := (g1 ! x)\<lparr>path := Some (f x)\<rparr>]"
    from g1(3) have l: "length g1 = length g" by (metis length_map)
    have "findSet g x = Some (Inr (f x, ?g'))"
      using p(2,3) False g1(1) by (subst findSet.simps) simp
    moreover have "uf_rel ?g' f"
      using uf_rel_compress [OF g1(2)] x l by simp
    moreover have "map uf_erase ?g' = map uf_erase g1"
      using x l by (intro uf_erase_update) (simp_all add: uf_erase_def)
    moreover have "map rank ?g' = map rank g1"
      using x l by (intro map_update_same) simp_all
    ultimately show ?thesis using g1(3,4) by simp
  qed
qed


lemma uf_rel_attach:
  assumes u: "uf_rel g f" and a: "a < length g" and b: "b < length g"
    and fa: "f a = a" and fb: "f b = b" and ab: "a \<noteq> b"
    and r: "rank (g ! b) \<le> r" "rank (g ! a) < r"
  shows "uf_rel (g[a := (g ! a)\<lparr>path := Some b\<rparr>, b := (g ! b)\<lparr>rank := r\<rparr>]) (merge_into f a b)"
proof -
  let ?g = "g[a := (g ! a)\<lparr>path := Some b\<rparr>, b := (g ! b)\<lparr>rank := r\<rparr>]"
  let ?f = "merge_into f a b"
  have rk: "rank (?g ! y) = (if y = b then r else rank (g ! y))" if "y < length g" for y
    using that ab by (auto simp: nth_upd)
  have pth: "path (?g ! y) = (if y = a then Some b else path (g ! y))" if "y < length g" for y
    using that ab by (auto simp: nth_upd)
  show ?thesis
    unfolding uf_rel_def
  proof (intro allI impI)
    fix y assume "y < length ?g"
    then have y: "y < length g" by simp
    note D = uf_relD [OF u y]
    have f'y: "?f y \<noteq> a" "?f y < length g"
      using ab b D(1) by (auto simp: merge_into_def)
    have 1: "?f y < length ?g" using f'y by simp
    have 2: "path (?g ! ?f y) = Some (?f y)"
      using f'y D(2) uf_rel_root [OF u b] fb by (auto simp: nth_upd merge_into_def)
    have 3: "?f y \<noteq> y \<longrightarrow> rank (?g ! y) < rank (?g ! ?f y)"
    proof (cases "f y = a")
      case True
      then have "y \<noteq> b" using fb ab by auto
      moreover have "rank (g ! y) \<le> rank (g ! a)"
        using D(3) True by (cases "y = a") auto
      ultimately show ?thesis
        using True r y b ab by (simp add: nth_upd merge_into_def)
    next
      case False
      show ?thesis
      proof (cases "f y = y")
        case True
        with False show ?thesis by (simp add: merge_into_def)
      next
        case ne: False
        then have "y \<noteq> b" using fb by auto
        then show ?thesis
          using False ne D(1,3) r y by (auto simp: nth_upd merge_into_def)
      qed
    qed
    have 4: "\<exists>p < length ?g. path (?g ! y) = Some p \<and> ?f p = ?f y \<and> (p = y \<longrightarrow> ?f y = y)
              \<and> (p \<noteq> y \<longrightarrow> rank (?g ! y) < rank (?g ! p))"
    proof (cases "y = a")
      case True
      then show ?thesis
        using a b ab fa fb r by (intro exI [of _ b]) (simp add: nth_upd merge_into_def)
    next
      case ne: False
      from D(4) obtain p where p: "p < length g" "path (g ! y) = Some p" "f p = f y"
        "p = y \<longrightarrow> f y = y" "p \<noteq> y \<longrightarrow> rank (g ! y) < rank (g ! p)" by blast
      have "p \<noteq> y \<longrightarrow> rank (?g ! y) < rank (?g ! p)"
      proof
        assume py: "p \<noteq> y"
        then have "y \<noteq> b"
          using p(2) uf_rel_root [OF u b] fb by auto
        then show "rank (?g ! y) < rank (?g ! p)"
          using p(1,5) py y r by (auto simp: nth_upd)
      qed
      moreover have "p = y \<longrightarrow> ?f y = y"
        using p(4) ne by (auto simp: merge_into_def)
      ultimately show ?thesis
        using ne y p(1,2,3) by (intro exI [of _ p]) (simp add: nth_upd merge_into_def)
    qed
    from 1 2 3 4
    show "?f y < length ?g \<and> path (?g ! ?f y) = Some (?f y)
        \<and> (?f y \<noteq> y \<longrightarrow> rank (?g ! y) < rank (?g ! ?f y))
        \<and> (\<exists>p < length ?g. path (?g ! y) = Some p \<and> ?f p = ?f y \<and> (p = y \<longrightarrow> ?f y = y)
              \<and> (p \<noteq> y \<longrightarrow> rank (?g ! y) < rank (?g ! p)))"
      by blast
  qed
qed

text \<open>
  \<open>linkSets\<close> on two vertices of different sets: the root of smaller rank goes under
  the other one, and on equal ranks the root of \<open>x\<close> goes under the root of \<open>y\<close>, whose rank
  grows by one.
\<close>

lemma linkSets_total:
  assumes u: "uf_rel g f" and x: "x < length g" and y: "y < length g" and ne: "f x \<noteq> f y"
  shows "\<exists>g2 g'. linkSets x y g = Some (Inr g') \<and> map uf_erase g' = map uf_erase g
           \<and> uf_rel g2 f \<and> map uf_erase g2 = map uf_erase g \<and> map rank g2 = map rank g
           \<and> (if rank (g2 ! f x) > rank (g2 ! f y)
               then g' = g2[f y := (g2 ! f y)\<lparr>path := Some (f x)\<rparr>]
                    \<and> uf_rel g' (merge_into f (f y) (f x))
               else g' = g2[f x := (g2 ! f x)\<lparr>path := Some (f y)\<rparr>,
                            f y := (g2 ! f y)\<lparr>rank := (if rank (g2 ! f x) = rank (g2 ! f y)
                                                       then rank (g2 ! f y) + 1 else rank (g2 ! f y))\<rparr>]
                    \<and> uf_rel g' (merge_into f (f x) (f y)))"
proof -
  from findSet_total [OF u x] obtain g1
    where g1: "findSet g x = Some (Inr (f x, g1))" "uf_rel g1 f" "map uf_erase g1 = map uf_erase g"
      "map rank g1 = map rank g"
    by blast
  from g1(3) have l1: "length g1 = length g" by (metis length_map)
  from findSet_total [OF g1(2), of y] y l1 obtain g2
    where g2: "findSet g1 y = Some (Inr (f y, g2))" "uf_rel g2 f" "map uf_erase g2 = map uf_erase g1"
      "map rank g2 = map rank g1"
    by auto
  from g2(3) l1 have l2: "length g2 = length g" by (metis length_map)
  let ?i = "f x" and ?j = "f y"
  have i: "?i < length g2" "f ?i = ?i" and j: "?j < length g2" "f ?j = ?j"
    using uf_relD(1) [OF g2(2)] uf_rel_idem [OF g2(2)] x y l2 by auto
  show ?thesis
  proof (cases "rank (g2 ! ?i) > rank (g2 ! ?j)")
    case True
    let ?g' = "g2[?j := (g2 ! ?j)\<lparr>path := Some ?i\<rparr>]"
    have "linkSets x y g = Some (Inr ?g')"
      using g1(1) g2(1) True by (simp add: linkSets_def bind_res_def)
    moreover have "?g' ! ?i = g2 ! ?i"
      using ne by simp
    then have "?g'[?i := g2 ! ?i] = ?g'"
      by (metis list_update_id)
    then have "?g' = g2[?j := (g2 ! ?j)\<lparr>path := Some ?i\<rparr>, ?i := (g2 ! ?i)\<lparr>rank := rank (g2 ! ?i)\<rparr>]"
      by simp
    then have "uf_rel ?g' (merge_into f ?j ?i)"
      using uf_rel_attach [OF g2(2) j(1) i(1) j(2) i(2), of "rank (g2 ! ?i)"] ne True by simp
    moreover have "map uf_erase ?g' = map uf_erase g2"
      using j by (intro uf_erase_update) (simp_all add: uf_erase_def)
    ultimately show ?thesis
      using True g2(2,3,4) g1(3,4) by (intro exI [of _ g2] exI [of _ ?g']) simp
  next
    case False
    let ?r = "if rank (g2 ! ?i) = rank (g2 ! ?j) then rank (g2 ! ?j) + 1 else rank (g2 ! ?j)"
    let ?g3 = "g2[?i := (g2 ! ?i)\<lparr>path := Some ?j\<rparr>]"
    let ?g' = "?g3[?j := (g2 ! ?j)\<lparr>rank := ?r\<rparr>]"
    have g3: "rank (?g3 ! ?i) = rank (g2 ! ?i)" "rank (?g3 ! ?j) = rank (g2 ! ?j)" "?g3 ! ?j = g2 ! ?j"
      using i j ne by (simp_all add: nth_upd)
    have "linkSets x y g = Some (Inr ?g')"
    proof (cases "rank (g2 ! ?i) = rank (g2 ! ?j)")
      case True
      then show ?thesis
        using g1(1) g2(1) False g3 by (simp add: linkSets_def bind_res_def Let_def)
    next
      case lt: False
      then have "?g' = ?g3"
        using g3 j by (simp add: list_update_same_conv)
      then show ?thesis
        using g1(1) g2(1) False g3 lt by (simp add: linkSets_def bind_res_def Let_def)
    qed
    moreover have "uf_rel ?g' (merge_into f ?i ?j)"
      using uf_rel_attach [OF g2(2) i(1) j(1) i(2) j(2), of ?r] ne False by auto
    moreover have "map uf_erase ?g3 = map uf_erase g2"
      using i by (intro uf_erase_update) (simp_all add: uf_erase_def)
    then have "map uf_erase ?g' = map uf_erase g2"
      using j g3 by (subst uf_erase_update) (simp_all add: uf_erase_def)
    ultimately show ?thesis
      using False g2(2,3,4) g1(3,4) by (intro exI [of _ g2] exI [of _ ?g']) simp
  qed
qed

section \<open>The loops of Kruskal's algorithm\<close>

lemma kr_erase_length: "map kr_erase g' = map kr_erase g \<Longrightarrow> length g' = length g"
  by (metis length_map)

lemma kr_erase_nth:
  assumes "map kr_erase g' = map kr_erase g" "v < length g"
  shows "kr_erase (g' ! v) = kr_erase (g ! v)"
  using assms kr_erase_length [OF assms(1)] by (metis nth_map)

lemma kr_erase_adj:
  assumes "map kr_erase g' = map kr_erase g" "v < length g"
  shows "map unsel (adj (g' ! v)) = map unsel (adj (g ! v))"
proof -
  have "map unsel (adj w) = adj (kr_erase w)" for w :: "'a vertex"
    by (simp add: kr_erase_def)
  then show ?thesis using kr_erase_nth [OF assms] by metis
qed

lemma kr_erase_valid:
  assumes "map kr_erase g' = map kr_erase g"
  shows "valid_eref g' r = valid_eref g r"
proof -
  have "length (adj (g' ! v)) = length (adj (g ! v))" if "v < length g" for v
    using kr_erase_adj [OF assms that] by (metis length_map)
  then show ?thesis
    using kr_erase_length [OF assms] by (auto simp: valid_eref_def)
qed

lemma kr_erase_edge:
  assumes "map kr_erase g' = map kr_erase g" "valid_eref g r"
  shows "unsel (the_edge g' r) = unsel (the_edge g r)"
proof -
  from assms(2) have v: "fst r < length g" "snd r < length (adj (g ! fst r))"
    by (simp_all add: valid_eref_def)
  from kr_erase_valid [OF assms(1), of r] assms(2) have v': "snd r < length (adj (g' ! fst r))"
    by (simp add: valid_eref_def)
  have "map unsel (adj (g' ! fst r)) ! snd r = map unsel (adj (g ! fst r)) ! snd r"
    using kr_erase_adj [OF assms(1) v(1)] by simp
  then show ?thesis
    using v v' by (simp add: the_edge_def)
qed

lemma unsel_fields:
  assumes "unsel e' = unsel e"
  shows "orig e' = orig e" "dest e' = dest e" "weight e' = weight e" "reverse e' = reverse e"
proof -
  have "orig (unsel x) = orig x" "dest (unsel x) = dest x" "weight (unsel x) = weight x"
    "reverse (unsel x) = reverse x" for x
    by (simp_all add: unsel_def)
  with assms show "orig e' = orig e" "dest e' = dest e" "weight e' = weight e" "reverse e' = reverse e"
    by metis+
qed

lemmas kr_erase_fields = unsel_fields [OF kr_erase_edge]

lemma uf_erase_kr_erase:
  assumes "map uf_erase g' = map uf_erase g"
  shows "map kr_erase g' = map kr_erase g" and "map adj g' = map adj g"
proof -
  have "map kr_erase h = map kr_erase (map uf_erase h)" "map adj h = map adj (map uf_erase h)"
    for h :: "'a graph"
    by (simp_all add: kr_erase_def uf_erase_def)
  with assms show "map kr_erase g' = map kr_erase g" and "map adj g' = map adj g"
    by metis+
qed

lemma map_adj_the_edge:
  assumes "map adj g' = map adj g" "valid_eref g r"
  shows "the_edge g' r = the_edge g r"
proof -
  from assms(1) have "length g' = length g" by (metis length_map)
  with assms have "adj (g' ! fst r) = adj (g ! fst r)"
    by (metis nth_map valid_eref_def)
  then show ?thesis by (simp add: the_edge_def)
qed

lemma map_adj_sel:
  assumes "map adj g' = map adj g"
  shows "sel g' = sel g"
proof -
  from assms have l: "length g' = length g" by (metis length_map)
  have v: "valid_eref g' r = valid_eref g r" for r
  proof -
    have "fst r < length g \<Longrightarrow> adj (g' ! fst r) = adj (g ! fst r)"
      using assms l by (metis nth_map)
    then show ?thesis using l by (auto simp: valid_eref_def)
  qed
  show ?thesis
    using v map_adj_the_edge [OF assms] by (auto simp: sel_def)
qed

text \<open>Writing a \<open>selected\<close> flag through a valid edge pointer.\<close>

lemma set_selected_length [simp]: "length (set_selected r b g) = length g"
  by (simp add: set_selected_def)

lemma set_selected_adj_length:
  "v < length g \<Longrightarrow> length (adj (set_selected r b g ! v)) = length (adj (g ! v))"
  by (simp add: set_selected_def nth_upd)

lemma set_selected_valid: "valid_eref (set_selected r b g) r' = valid_eref g r'"
  by (auto simp: valid_eref_def set_selected_adj_length)

lemma set_selected_edge:
  assumes "valid_eref g r'"
  shows "the_edge (set_selected r b g) r' = (if r' = r then (the_edge g r)\<lparr>selected := b\<rparr> else the_edge g r')"
  using assms by (auto simp: valid_eref_def set_selected_def the_edge_def nth_upd prod_eq_iff)

lemma set_selected_kr_erase:
  assumes "valid_eref g r"
  shows "map kr_erase (set_selected r b g) = map kr_erase g"
proof -
  let ?v = "fst r" and ?k = "snd r"
  from assms have v: "?v < length g" "?k < length (adj (g ! ?v))"
    by (simp_all add: valid_eref_def)
  have "map unsel ((adj (g ! ?v))[?k := (adj (g ! ?v) ! ?k)\<lparr>selected := b\<rparr>]) = map unsel (adj (g ! ?v))"
    using v(2) by (intro map_update_same) (simp_all add: unsel_def)
  then show ?thesis
    unfolding set_selected_def using v(1)
    by (intro map_update_same) (simp_all add: kr_erase_def)
qed

lemma set_selected_sel:
  assumes "valid_eref g r"
  shows "sel (set_selected r True g) = insert r (sel g)"
    and "sel (set_selected r False g) = sel g - {r}"
  using assms by (auto simp: sel_def set_selected_valid set_selected_edge split: if_splits)

lemma uf_rel_cong1:
  assumes "map path g' = map path g" "map rank g' = map rank g" and u: "uf_rel g f"
  shows "uf_rel g' f"
proof -
  from assms have l: "length g' = length g" by (metis length_map)
  have e: "path (g' ! x) = path (g ! x)" "rank (g' ! x) = rank (g ! x)" if "x < length g" for x
    using assms l that by (metis nth_map)+
  show ?thesis
    unfolding uf_rel_def l
  proof (intro allI impI)
    fix x assume x: "x < length g"
    note D = uf_relD [OF u x]
    from D(4) obtain p where p: "p < length g" "path (g ! x) = Some p" "f p = f x"
      "p = x \<longrightarrow> f x = x" "p \<noteq> x \<longrightarrow> rank (g ! x) < rank (g ! p)" by blast
    have "\<exists>p < length g. path (g' ! x) = Some p \<and> f p = f x \<and> (p = x \<longrightarrow> f x = x)
              \<and> (p \<noteq> x \<longrightarrow> rank (g' ! x) < rank (g' ! p))"
      using p x by (intro exI [of _ p]) (simp add: e)
    then show "f x < length g \<and> path (g' ! f x) = Some (f x)
        \<and> (f x \<noteq> x \<longrightarrow> rank (g' ! x) < rank (g' ! f x))
        \<and> (\<exists>p < length g. path (g' ! x) = Some p \<and> f p = f x \<and> (p = x \<longrightarrow> f x = x)
              \<and> (p \<noteq> x \<longrightarrow> rank (g' ! x) < rank (g' ! p)))"
      using D(1,2,3) x by (simp add: e)
  qed
qed

lemma uf_rel_cong:
  assumes "map path g' = map path g" "map rank g' = map rank g"
  shows "uf_rel g' f = uf_rel g f"
  using uf_rel_cong1 [of g' g f] uf_rel_cong1 [of g g' f] assms by auto

lemma set_selected_uf_rel: "uf_rel (set_selected r b g) f = uf_rel g f"
proof (rule uf_rel_cong)
  show "map path (set_selected r b g) = map path g" "map rank (set_selected r b g) = map rank g"
    by (auto simp: set_selected_def nth_upd intro!: nth_equalityI)
qed


lemma wf_bidir_edge:
  assumes wf: "wf_bidir g" and r: "valid_eref g r"
  shows "orig (the_edge g r) = fst r" and "dest (the_edge g r) < length g"
    and "\<exists>r'. reverse (the_edge g r) = Some r' \<and> valid_eref g r'
            \<and> orig (the_edge g r') = dest (the_edge g r) \<and> dest (the_edge g r') = fst r
            \<and> weight (the_edge g r') = weight (the_edge g r) \<and> reverse (the_edge g r') = Some r"
proof -
  from r have v: "fst r < length g" "snd r < length (adj (g ! fst r))"
    by (simp_all add: valid_eref_def)
  then have m: "the_edge g r \<in> set (adj (g ! fst r))"
    by (simp add: the_edge_def)
  from wf have "wf_graph g" by (simp add: wf_bidir_def)
  with v(1) m show "orig (the_edge g r) = fst r" and "dest (the_edge g r) < length g"
    by (auto simp: wf_graph_def)
  from wf v have "case reverse (the_edge g r) of None \<Rightarrow> False
     | Some r' \<Rightarrow> (case edge_at g r' of None \<Rightarrow> False
         | Some e' \<Rightarrow> orig e' = dest (the_edge g r) \<and> dest e' = fst r
              \<and> weight e' = weight (the_edge g r) \<and> reverse e' = Some (fst r, snd r))"
    unfolding wf_bidir_def the_edge_def by blast
  then show "\<exists>r'. reverse (the_edge g r) = Some r' \<and> valid_eref g r'
            \<and> orig (the_edge g r') = dest (the_edge g r) \<and> dest (the_edge g r') = fst r
            \<and> weight (the_edge g r') = weight (the_edge g r) \<and> reverse (the_edge g r') = Some r"
    by (auto simp: edge_at_def valid_eref_def the_edge_def split: option.splits if_splits)
qed

text \<open>
  The rule for the third loop. \<open>J\<close> is a property of the sets (through \<open>f\<close>), the counter,
  the selected edges and the edges gone through; it must survive an edge inside one
  set, which changes nothing, and an edge between two sets, which joins them in
  one direction or the other, counts one more and selects the edge and its reverse.
\<close>

lemma kruskal_loop_rule:
  fixes J :: "(vref \<Rightarrow> vref) \<Rightarrow> nat \<Rightarrow> eref set \<Rightarrow> eref list \<Rightarrow> bool" and g0 :: "'a graph"
  assumes wf: "wf_bidir g0"
    and skip: "\<And>f k S ds e (h :: 'a graph). J f k S ds \<Longrightarrow> valid_eref g0 e \<Longrightarrow> uf_rel h f \<Longrightarrow> length h = length g0
                 \<Longrightarrow> f (fst e) = f (dest (the_edge g0 e)) \<Longrightarrow> J f k S (ds @ [e])"
    and join: "\<And>f k S ds e r i j (h :: 'a graph). J f k S ds \<Longrightarrow> valid_eref g0 e \<Longrightarrow> uf_rel h f \<Longrightarrow> length h = length g0
                 \<Longrightarrow> f (fst e) \<noteq> f (dest (the_edge g0 e)) \<Longrightarrow> reverse (the_edge g0 e) = Some r
                 \<Longrightarrow> (i = f (fst e) \<and> j = f (dest (the_edge g0 e))) \<or> (j = f (fst e) \<and> i = f (dest (the_edge g0 e)))
                 \<Longrightarrow> J (merge_into f i j) (Suc k) (insert r (insert e S)) (ds @ [e])"
    and es: "\<forall>e \<in> set es. valid_eref g0 e"
    and g: "uf_rel g f" "map kr_erase g = map kr_erase g0"
    and J: "J f k (sel g) ds"
  shows "\<exists>g' k' f'. kruskal_loop es g k = Some (Inr (g', k')) \<and> uf_rel g' f'
           \<and> map kr_erase g' = map kr_erase g0 \<and> J f' k' (sel g') (ds @ es)"
  using es g J
proof (induction es arbitrary: g f k ds)
  case Nil
  then show ?case by auto
next
  case (Cons e es)
  from Cons.prems have e: "valid_eref g0 e" and es: "\<forall>e \<in> set es. valid_eref g0 e"
    and u: "uf_rel g f" and fr: "map kr_erase g = map kr_erase g0" and J: "J f k (sel g) ds"
    by simp_all
  note l = kr_erase_length [OF fr]
  let ?u = "fst e" and ?v = "dest (the_edge g0 e)"
  from wf_bidir_edge [OF wf e] obtain r where
    o: "orig (the_edge g0 e) = ?u" and v: "?v < length g0"
    and r: "reverse (the_edge g0 e) = Some r" "valid_eref g0 r"
    by blast
  from e have ul: "?u < length g0" by (simp add: valid_eref_def)
  have e0: "orig (the_edge g e) = ?u"
    using kr_erase_fields(1) [OF fr e] o by simp
  from findSet_total [OF u, of ?u] ul l obtain g1 where
    g1: "findSet g ?u = Some (Inr (f ?u, g1))" "uf_rel g1 f" "map uf_erase g1 = map uf_erase g"
    by auto
  note fr1 = uf_erase_kr_erase(1) [OF g1(3), unfolded fr]
  note l1 = kr_erase_length [OF fr1]
  have e1: "dest (the_edge g1 e) = ?v"
    using kr_erase_fields(2) [OF fr1 e] by simp
  from findSet_total [OF g1(2), of ?v] v l1 obtain g2 where
    g2: "findSet g1 ?v = Some (Inr (f ?v, g2))" "uf_rel g2 f" "map uf_erase g2 = map uf_erase g1"
    by auto
  note fr2 = uf_erase_kr_erase(1) [OF g2(3), unfolded fr1]
  note l2 = kr_erase_length [OF fr2]
  have s2: "sel g2 = sel g"
    using map_adj_sel [OF uf_erase_kr_erase(2) [OF g2(3)]] map_adj_sel [OF uf_erase_kr_erase(2) [OF g1(3)]]
    by simp
  have e2: "orig (the_edge g2 e) = ?u" "dest (the_edge g2 e) = ?v"
    using kr_erase_fields(1,2) [OF fr2 e] o by simp_all
  show ?case
  proof (cases "f ?u = f ?v")
    case True
    have st: "kruskal_loop (e # es) g k = kruskal_loop es g2 k"
      using g1(1) g2(1) True e0 e1 by (simp add: bind_res_def)
    have "J f k (sel g2) (ds @ [e])"
      using skip [OF J e u l True] s2 by simp
    from Cons.IH [OF es g2(2) fr2 this] show ?thesis
      unfolding st by simp
  next
    case False
    from linkSets_total [OF g2(2), of ?u ?v] ul v l2 False obtain h g3 where
      g3: "linkSets ?u ?v g2 = Some (Inr g3)" "map uf_erase g3 = map uf_erase g2"
      and f': "uf_rel g3 (merge_into f (f ?v) (f ?u)) \<or> uf_rel g3 (merge_into f (f ?u) (f ?v))"
      by (auto split: if_splits)
    note fr3 = uf_erase_kr_erase(1) [OF g3(2), unfolded fr2]
    have s3: "sel g3 = sel g"
      using map_adj_sel [OF uf_erase_kr_erase(2) [OF g3(2)]] s2 by simp
    have e3: "valid_eref g3 e" "valid_eref g3 r"
      using kr_erase_valid [OF fr3] e r(2) by simp_all
    let ?g4 = "set_selected e True g3"
    let ?g5 = "set_selected r True ?g4"
    have fr4: "map kr_erase ?g4 = map kr_erase g0"
      using set_selected_kr_erase [OF e3(1)] fr3 by simp
    have r4: "reverse (the_edge ?g4 e) = Some r"
      using kr_erase_fields(4) [OF fr4 e] r(1) by simp
    have e4: "valid_eref ?g4 r"
      using e3(2) by (simp add: set_selected_valid)
    have fr5: "map kr_erase ?g5 = map kr_erase g0"
      using set_selected_kr_erase [OF e4] fr4 by simp
    have s5: "sel ?g5 = insert r (insert e (sel g))"
      using set_selected_sel(1) [OF e4] set_selected_sel(1) [OF e3(1)] s3 by simp
    have st: "kruskal_loop (e # es) g k = kruskal_loop es ?g5 (Suc k)"
      using g1(1) g2(1) False e0 e1 e2 g3(1) r4 by (simp add: bind_res_def Let_def)
    from f' show ?thesis
    proof
      assume a: "uf_rel g3 (merge_into f (f ?v) (f ?u))"
      then have u5: "uf_rel ?g5 (merge_into f (f ?v) (f ?u))"
        by (simp add: set_selected_uf_rel)
      have "J (merge_into f (f ?v) (f ?u)) (Suc k) (sel ?g5) (ds @ [e])"
        unfolding s5 by (rule join [OF J e u l False r(1)]) simp
      from Cons.IH [OF es u5 fr5 this] show ?thesis
        unfolding st by simp
    next
      assume a: "uf_rel g3 (merge_into f (f ?u) (f ?v))"
      then have u5: "uf_rel ?g5 (merge_into f (f ?u) (f ?v))"
        by (simp add: set_selected_uf_rel)
      have "J (merge_into f (f ?u) (f ?v)) (Suc k) (sel ?g5) (ds @ [e])"
        unfolding s5 by (rule join [OF J e u l False r(1)]) simp
      from Cons.IH [OF es u5 fr5 this] show ?thesis
        unfolding st by simp
    qed
  qed
qed

lemma kruskal_init_fold:
  assumes "m \<le> length g"
  shows "length (fold (\<lambda>k g'. (let g1 = makeSet k g' in g1[k := (g1 ! k)\<lparr>idv := int k\<rparr>])) [0..<m] g) = length g
    \<and> (\<forall>x < length g. fold (\<lambda>k g'. (let g1 = makeSet k g' in g1[k := (g1 ! k)\<lparr>idv := int k\<rparr>])) [0..<m] g ! x
          = (if x < m then (g ! x)\<lparr>path := Some x, rank := 0, idv := int x\<rparr> else g ! x))"
  using assms
proof (induction m)
  case 0
  then show ?case by simp
next
  case (Suc m)
  then show ?case
    by (auto simp: makeSet_def Let_def nth_upd less_Suc_eq)
qed

lemma kruskal_init_nth:
  shows "length (kruskal_init g) = length g"
    and "x < length g \<Longrightarrow> kruskal_init g ! x = (g ! x)\<lparr>path := Some x, rank := 0, idv := int x\<rparr>"
  using kruskal_init_fold [of "length g" g] by (simp_all add: kruskal_init_def)

lemma kruskal_init_kr_erase: "map kr_erase (kruskal_init g) = map kr_erase g"
  by (rule nth_equalityI) (simp_all add: kruskal_init_nth kr_erase_def)

lemma kruskal_init_uf_rel: "uf_rel (kruskal_init g) (\<lambda>x. x)"
  by (simp add: uf_rel_def kruskal_init_nth)

lemma set_all_erefs: "set (all_erefs g) = {r. valid_eref g r}"
  by (auto simp: all_erefs_def valid_eref_def)

lemma set_selected_idv: "idv (set_selected r b g ! x) = idv (g ! x)"
proof (cases "x < length g")
  case True
  then show ?thesis by (simp add: set_selected_def nth_upd)
next
  case False
  then have "set_selected r b g ! x = g ! x"
    by (cases "fst r = x") (simp_all add: set_selected_def list_update_beyond)
  then show ?thesis by simp
qed

lemma collect_fold:
  assumes "\<forall>r \<in> set rs. valid_eref g r"
  shows "fold collect_step rs (g, acc) =
           (fold (\<lambda>r. set_selected r False) rs g,
            acc @ filter (\<lambda>r. idv (g ! orig (the_edge g r)) < idv (g ! dest (the_edge g r))) rs)"
  using assms
proof (induction rs arbitrary: g acc)
  case Nil
  then show ?case by simp
next
  case (Cons r rs)
  let ?g' = "set_selected r False g"
  let ?c = "\<lambda>h r. idv (h ! orig (the_edge h r)) < idv (h ! dest (the_edge h r))"
  from Cons.prems have r: "valid_eref g r" and rs: "\<forall>r \<in> set rs. valid_eref g r" by simp_all
  have c: "?c ?g' r' = ?c g r'" if "valid_eref g r'" for r'
    using that by (simp add: set_selected_edge set_selected_idv)
  have st: "collect_step r (g, acc) = (?g', if ?c g r then acc @ [r] else acc)"
    using c [OF r] by (simp add: collect_step_def Let_def)
  have rs': "\<forall>r' \<in> set rs. valid_eref ?g' r'"
    using rs by (simp add: set_selected_valid)
  have "filter (?c ?g') rs = filter (?c g) rs"
    using rs c by (intro filter_cong) auto
  then show ?case
    using Cons.IH [OF rs'] by (simp add: st)
qed

lemma unselect_fold:
  assumes "\<forall>r \<in> set rs. valid_eref g r"
  shows "map kr_erase (fold (\<lambda>r. set_selected r False) rs g) = map kr_erase g"
    and "sel (fold (\<lambda>r. set_selected r False) rs g) = sel g - set rs"
    and "uf_rel (fold (\<lambda>r. set_selected r False) rs g) f = uf_rel g f"
  using assms
proof (induction rs arbitrary: g)
  case Nil
  {
    case 1 show ?case by simp
  next
    case 2 show ?case by simp
  next
    case 3 show ?case by simp
  }
next
  case (Cons r rs)
  {
    case 1
    then have "\<forall>r' \<in> set rs. valid_eref (set_selected r False g) r'" "valid_eref g r"
      by (simp_all add: set_selected_valid)
    from Cons.IH(1) [OF this(1)] set_selected_kr_erase [OF this(2)] show ?case by simp
  next
    case 2
    then have "\<forall>r' \<in> set rs. valid_eref (set_selected r False g) r'" "valid_eref g r"
      by (simp_all add: set_selected_valid)
    from Cons.IH(2) [OF this(1)] set_selected_sel(2) [OF this(2)] show ?case by auto
  next
    case 3
    then have "\<forall>r' \<in> set rs. valid_eref (set_selected r False g) r'"
      by (simp_all add: set_selected_valid)
    from Cons.IH(3) [OF this] show ?case by (simp add: set_selected_uf_rel)
  }
qed

text \<open>After the first two loops: singleton sets, no edge selected, and the list of edges.\<close>

lemma kruskal_collect_facts:
  assumes wf: "wf_bidir g"
  shows "map kr_erase (fst (kruskal_collect (kruskal_init g))) = map kr_erase g"
    and "sel (fst (kruskal_collect (kruskal_init g))) = {}"
    and "uf_rel (fst (kruskal_collect (kruskal_init g))) (\<lambda>x. x)"
    and "snd (kruskal_collect (kruskal_init g)) = filter (\<lambda>r. fst r < dest (the_edge g r)) (all_erefs g)"
proof -
  let ?g1 = "kruskal_init g"
  note fr = kruskal_init_kr_erase [of g]
  have v: "\<forall>r \<in> set (all_erefs ?g1). valid_eref ?g1 r"
    by (simp add: set_all_erefs)
  note c = collect_fold [OF v, of "[]"]
  note u = unselect_fold [OF v]
  show "map kr_erase (fst (kruskal_collect ?g1)) = map kr_erase g"
    using u(1) fr by (simp add: kruskal_collect_def c)
  show "sel (fst (kruskal_collect ?g1)) = {}"
    using u(2) by (auto simp: kruskal_collect_def c set_all_erefs sel_def)
  show "uf_rel (fst (kruskal_collect ?g1)) (\<lambda>x. x)"
    using u(3) kruskal_init_uf_rel by (simp add: kruskal_collect_def c)
  have a: "all_erefs ?g1 = all_erefs g"
    unfolding all_erefs_def kruskal_init_nth(1)
    by (intro arg_cong [where f = concat] map_cong) (simp_all add: kruskal_init_nth)
  have "(idv (?g1 ! orig (the_edge ?g1 r)) < idv (?g1 ! dest (the_edge ?g1 r)))
        = (fst r < dest (the_edge g r))" if "r \<in> set (all_erefs g)" for r
  proof -
    from that have r: "valid_eref g r" by (simp add: set_all_erefs)
    note f = kr_erase_fields(1,2) [OF fr r]
    from wf_bidir_edge(1,2) [OF wf r] have "orig (the_edge g r) = fst r" "dest (the_edge g r) < length g"
      by simp_all
    moreover from r have "fst r < length g" by (simp add: valid_eref_def)
    ultimately show ?thesis
      by (simp add: f kruskal_init_nth)
  qed
  then have "filter (\<lambda>r. idv (?g1 ! orig (the_edge ?g1 r)) < idv (?g1 ! dest (the_edge ?g1 r))) (all_erefs g)
        = filter (\<lambda>r. fst r < dest (the_edge g r)) (all_erefs g)"
    by (intro filter_cong) auto
  then show "snd (kruskal_collect ?g1) = filter (\<lambda>r. fst r < dest (the_edge g r)) (all_erefs g)"
    unfolding kruskal_collect_def c by (simp add: a)
qed

lemma insort_key_agree:
  assumes "f x = h x" "\<forall>y \<in> set ys. f y = h y"
  shows "insort_key f x ys = insort_key h x ys"
  using assms by (induction ys) auto

lemma sort_key_agree:
  assumes "\<forall>x \<in> set xs. f x = h x"
  shows "sort_key f xs = sort_key h xs"
  using assms
proof (induction xs)
  case Nil
  then show ?case by simp
next
  case (Cons x xs)
  then have "sort_key f xs = sort_key h xs" by simp
  moreover have "insort_key f x (sort_key h xs) = insort_key h x (sort_key h xs)"
    using Cons.prems by (intro insort_key_agree) simp_all
  ultimately show ?case by (simp add: sort_key_simps)
qed

lemma sort_edges_cong:
  assumes fr: "map kr_erase g' = map kr_erase g" and rs: "\<forall>r \<in> set rs. valid_eref g r"
  shows "sort_edges g' rs = sort_key (\<lambda>r. weight (the_edge g r)) rs"
  unfolding sort_edges_def
  using kr_erase_fields(3) [OF fr] rs by (intro sort_key_agree) simp

lemma kruskal_edges_valid: "\<forall>r \<in> set (kruskal_edges g). valid_eref g r"
  by (simp add: kruskal_edges_def set_all_erefs)

lemma kruskal_sets_unfold:
  assumes wf: "wf_bidir g"
  shows "kruskal_sets g = kruskal_loop (kruskal_edges g) (fst (kruskal_collect (kruskal_init g))) 0"
proof -
  note F = kruskal_collect_facts [OF wf]
  have v: "\<forall>r \<in> set (snd (kruskal_collect (kruskal_init g))). valid_eref g r"
    by (simp add: F(4) set_all_erefs)
  have "sort_edges (fst (kruskal_collect (kruskal_init g))) (snd (kruskal_collect (kruskal_init g)))
        = kruskal_edges g"
    unfolding sort_edges_cong [OF F(1) v] by (simp add: F(4) kruskal_edges_def)
  then show ?thesis
    by (simp add: kruskal_sets_def Let_def split_beta)
qed


lemma kruskal_sets_rule:
  fixes J :: "(vref \<Rightarrow> vref) \<Rightarrow> nat \<Rightarrow> eref set \<Rightarrow> eref list \<Rightarrow> bool" and g :: "'a graph"
  assumes wf: "wf_bidir g"
    and skip: "\<And>f k S ds e (h :: 'a graph). J f k S ds \<Longrightarrow> valid_eref g e \<Longrightarrow> uf_rel h f \<Longrightarrow> length h = length g
                 \<Longrightarrow> f (fst e) = f (dest (the_edge g e)) \<Longrightarrow> J f k S (ds @ [e])"
    and join: "\<And>f k S ds e r i j (h :: 'a graph). J f k S ds \<Longrightarrow> valid_eref g e \<Longrightarrow> uf_rel h f \<Longrightarrow> length h = length g
                 \<Longrightarrow> f (fst e) \<noteq> f (dest (the_edge g e)) \<Longrightarrow> reverse (the_edge g e) = Some r
                 \<Longrightarrow> (i = f (fst e) \<and> j = f (dest (the_edge g e))) \<or> (j = f (fst e) \<and> i = f (dest (the_edge g e)))
                 \<Longrightarrow> J (merge_into f i j) (Suc k) (insert r (insert e S)) (ds @ [e])"
    and J0: "J (\<lambda>x. x) 0 {} []"
  shows "\<exists>g' k' f'. kruskal_sets g = Some (Inr (g', k')) \<and> uf_rel g' f'
           \<and> map kr_erase g' = map kr_erase g \<and> J f' k' (sel g') (kruskal_edges g)"
proof -
  note F = kruskal_collect_facts [OF wf]
  let ?g2 = "fst (kruskal_collect (kruskal_init g))"
  have J0': "J (\<lambda>x. x) 0 (sel ?g2) []"
    using J0 by (simp only: F(2))
  have "\<exists>g' k' f'. kruskal_loop (kruskal_edges g) ?g2 0 = Some (Inr (g', k')) \<and> uf_rel g' f'
           \<and> map kr_erase g' = map kr_erase g \<and> J f' k' (sel g') ([] @ kruskal_edges g)"
  proof (rule kruskal_loop_rule [where J = J and ?g0.0 = g and f = "\<lambda>x. x"])
    show "wf_bidir g" by (rule wf)
    show "\<forall>e \<in> set (kruskal_edges g). valid_eref g e" by (rule kruskal_edges_valid)
    show "uf_rel ?g2 (\<lambda>x. x)" by (rule F(3))
    show "map kr_erase ?g2 = map kr_erase g" by (rule F(1))
    show "J (\<lambda>x. x) 0 (sel ?g2) []" by (rule J0')
  next
    fix f k S ds e and h :: "'a graph"
    assume "J f k S ds" "valid_eref g e" "uf_rel h f" "length h = length g"
      "f (fst e) = f (dest (the_edge g e))"
    then show "J f k S (ds @ [e])" by (rule skip)
  next
    fix f k S ds e r i j and h :: "'a graph"
    assume "J f k S ds" "valid_eref g e" "uf_rel h f" "length h = length g"
      "f (fst e) \<noteq> f (dest (the_edge g e))" "reverse (the_edge g e) = Some r"
      "(i = f (fst e) \<and> j = f (dest (the_edge g e))) \<or> (j = f (fst e) \<and> i = f (dest (the_edge g e)))"
    then show "J (merge_into f i j) (Suc k) (insert r (insert e S)) (ds @ [e])" by (rule join)
  qed
  then show ?thesis
    unfolding kruskal_sets_unfold [OF wf] by simp
qed


section \<open>Counting the disjoint sets\<close>

lemma merge_into_roots:
  assumes u: "uf_rel h f" and i: "i < length h" "f i = i" and j: "f j = j" and ne: "i \<noteq> j"
  shows "{x. x < length h \<and> merge_into f i j x = x} = {x. x < length h \<and> f x = x} - {i}"
  using assms by (auto simp: merge_into_def)

lemma roots_card_join:
  assumes u: "uf_rel h f" and i: "i < length h" "f i = i" and j: "f j = j" and ne: "i \<noteq> j"
    and c: "card {x. x < length h \<and> f x = x} + k = n"
  shows "card {x. x < length h \<and> merge_into f i j x = x} + Suc k = n"
proof -
  have fin: "finite {x. x < length h \<and> f x = x}" by simp
  have mem: "i \<in> {x. x < length h \<and> f x = x}" using i by simp
  have "Suc (card ({x. x < length h \<and> f x = x} - {i})) = card {x. x < length h \<and> f x = x}"
    by (rule card_Suc_Diff1 [OF fin mem])
  with c show ?thesis
    unfolding merge_into_roots [OF u i j ne] by simp
qed

lemma findSet_root_iff:
  assumes u: "uf_rel h f" and x: "x < length h"
  shows "(\<exists>h'. findSet h x = Some (Inr (x, h'))) \<longleftrightarrow> f x = x"
proof -
  from findSet_total [OF u x] obtain h' where "findSet h x = Some (Inr (f x, h'))"
    by blast
  then show ?thesis by auto
qed

lemma wf_bidir_scenario: "wf_bidir scenario"
  unfolding wf_bidir_def
proof
  show "wf_graph scenario" by (rule wf_graph_scenario)
  show "\<forall>v<length scenario. \<forall>k<length (adj (scenario ! v)).
       case reverse (adj (scenario ! v) ! k) of None \<Rightarrow> False
       | Some r \<Rightarrow> (case edge_at scenario r of None \<Rightarrow> False
           | Some e' \<Rightarrow> orig e' = dest (adj (scenario ! v) ! k) \<and> dest e' = v
               \<and> weight e' = weight (adj (scenario ! v) ! k) \<and> reverse e' = Some (v, k))"
    by (simp add: scenario_eq All_less_Suc edge_at_def)
qed

section \<open>The traversal that sets the parents after Kruskal's algorithm\<close>

lemma dfs_erase_length: "map dfs_erase g' = map dfs_erase g \<Longrightarrow> length g' = length g"
  by (metis length_map)

lemma dfs_erase_adj:
  assumes "map dfs_erase g' = map dfs_erase g" "v < length g"
  shows "adj (g' ! v) = adj (g ! v)"
proof -
  have "adj w = adj (dfs_erase w)" for w :: "'a vertex"
    by (simp add: dfs_erase_def)
  moreover have "dfs_erase (g' ! v) = dfs_erase (g ! v)"
    using assms dfs_erase_length [OF assms(1)] by (metis nth_map)
  ultimately show ?thesis by metis
qed

lemma unvis_finite [simp]: "finite (unvis g)"
  by (simp add: unvis_def)

text \<open>
  The traversal returns. It writes only inside a set \<open>R\<close> of vertices that contains the
  destinations of the edges it is given and is closed under the edges of the graph.
\<close>

lemma dfs_loop_total:
  fixes g0 :: "'a graph"
  assumes wf: "wf_graph g0"
    and closed: "\<forall>u \<in> R. u < length g0 \<longrightarrow> (\<forall>e \<in> set (adj (g0 ! u)). dest e \<in> R)"
  shows "card (unvis g) \<le> k \<Longrightarrow> map dfs_erase g = map dfs_erase g0
     \<Longrightarrow> \<forall>e \<in> set es. dest e < length g0 \<and> dest e \<in> R
     \<Longrightarrow> \<exists>g'. dfs_loop g v es = Some g' \<and> map dfs_erase g' = map dfs_erase g0
              \<and> unvis g' \<subseteq> unvis g \<and> (\<forall>x < length g0. x \<notin> R \<longrightarrow> g' ! x = g ! x)"
proof (induction k arbitrary: g v es rule: less_induct)
  case (less k)
  show ?case
    using less.prems
  proof (induction es arbitrary: g)
    case Nil
    then show ?case
      by (subst dfs_loop.simps) simp
  next
    case (Cons e es)
    note fr = Cons.prems(2)
    note l = dfs_erase_length [OF fr]
    from Cons.prems(3) have d: "dest e < length g0" "dest e \<in> R"
      and es: "\<forall>e \<in> set es. dest e < length g0 \<and> dest e \<in> R" by simp_all
    show ?case
    proof (cases "\<not> visited (g ! dest e) \<and> selected e")
      case False
      from Cons.IH [OF Cons.prems(1) fr es] obtain g' where
        "dfs_loop g v es = Some g'" "map dfs_erase g' = map dfs_erase g0"
        "unvis g' \<subseteq> unvis g" "\<forall>x < length g0. x \<notin> R \<longrightarrow> g' ! x = g ! x"
        by blast
      moreover have "dfs_loop g v (e # es) = dfs_loop g v es"
        using False by (subst dfs_loop.simps) auto
      ultimately show ?thesis by simp
    next
      case True
      let ?d = "dest e"
      let ?g1 = "g[?d := (g ! ?d)\<lparr>path := Some v\<rparr>]"
      let ?g2 = "?g1[?d := (?g1 ! ?d)\<lparr>visited := True\<rparr>]"
      have st: "dfs_loop g v (e # es) = Option.bind (dfs_loop ?g2 ?d (adj (?g2 ! ?d))) (\<lambda>g3. dfs_loop g3 v es)"
        using True by (subst dfs_loop.simps) (simp add: Let_def)
      have fr2: "map dfs_erase ?g2 = map dfs_erase g0"
      proof -
        have "map dfs_erase ?g1 = map dfs_erase g"
          using d l by (intro map_update_same) (simp_all add: dfs_erase_def)
        moreover have "map dfs_erase ?g2 = map dfs_erase ?g1"
          using d l by (intro map_update_same) (simp_all add: dfs_erase_def)
        ultimately show ?thesis using fr by simp
      qed
      have u2: "unvis ?g2 = unvis g - {?d}"
        using d l by (auto simp: unvis_def nth_upd split: if_splits)
      have "?d \<in> unvis g"
        using True d l by (simp add: unvis_def)
      then have c2: "card (unvis ?g2) < card (unvis g)"
        unfolding u2 by (intro card_Diff1_less) simp_all
      with Cons.prems(1) have k2: "card (unvis ?g2) < k" by simp
      have a2: "adj (?g2 ! ?d) = adj (g0 ! ?d)"
        using dfs_erase_adj [OF fr2 d(1)] .
      have es2: "\<forall>e' \<in> set (adj (?g2 ! ?d)). dest e' < length g0 \<and> dest e' \<in> R"
        using wf closed d unfolding a2 by (auto simp: wf_graph_def)
      from less.IH [OF k2 order_refl fr2 es2, of ?d] obtain g3 where
        g3: "dfs_loop ?g2 ?d (adj (?g2 ! ?d)) = Some g3" "map dfs_erase g3 = map dfs_erase g0"
        "unvis g3 \<subseteq> unvis ?g2" "\<forall>x < length g0. x \<notin> R \<longrightarrow> g3 ! x = ?g2 ! x"
        by blast
      have "card (unvis g3) \<le> card (unvis ?g2)"
        using g3(3) by (intro card_mono) simp_all
      with c2 Cons.prems(1) have k3: "card (unvis g3) \<le> k" by simp
      from Cons.IH [OF k3 g3(2) es] obtain g' where
        g': "dfs_loop g3 v es = Some g'" "map dfs_erase g' = map dfs_erase g0"
        "unvis g' \<subseteq> unvis g3" "\<forall>x < length g0. x \<notin> R \<longrightarrow> g' ! x = g3 ! x"
        by blast
      have "dfs_loop g v (e # es) = Some g'"
        using st g3(1) g'(1) by simp
      moreover have "unvis g' \<subseteq> unvis g"
        using g'(3) g3(3) u2 by blast
      moreover have "\<forall>x < length g0. x \<notin> R \<longrightarrow> g' ! x = g ! x"
      proof (intro allI impI)
        fix x assume x: "x < length g0" "x \<notin> R"
        with d have "x \<noteq> ?d" by auto
        then have "?g2 ! x = g ! x" by simp
        with x g'(4) g3(4) show "g' ! x = g ! x" by simp
      qed
      ultimately show ?thesis using g'(2) by simp
    qed
  qed
qed


lemma edge_rel_cong: "map adj g' = map adj g \<Longrightarrow> edge_rel g' = edge_rel g"
proof -
  assume a: "map adj g' = map adj g"
  then have l: "length g' = length g" by (metis length_map)
  have "adj (g' ! v) = adj (g ! v)" if "v < length g" for v
    using a that l by (metis nth_map)
  then show ?thesis by (auto simp: edge_rel_def l)
qed

lemma kr_erase_dests:
  assumes "map kr_erase g' = map kr_erase g" "v < length g"
  shows "map dest (adj (g' ! v)) = map dest (adj (g ! v))"
    and "map orig (adj (g' ! v)) = map orig (adj (g ! v))"
proof -
  have "map dest es = map dest (map unsel es)" "map orig es = map orig (map unsel es)" for es
    by (simp_all add: unsel_def)
  then show "map dest (adj (g' ! v)) = map dest (adj (g ! v))"
    and "map orig (adj (g' ! v)) = map orig (adj (g ! v))"
    using kr_erase_adj [OF assms] by metis+
qed

lemma kr_erase_edge_rel:
  assumes "map kr_erase g' = map kr_erase g"
  shows "edge_rel g' = edge_rel g"
proof -
  have "dest ` set (adj (g' ! v)) = dest ` set (adj (g ! v))" if "v < length g" for v
    using kr_erase_dests(1) [OF assms that] by (metis set_map)
  then have "(\<exists>e \<in> set (adj (g' ! v)). dest e = w) = (\<exists>e \<in> set (adj (g ! v)). dest e = w)"
    if "v < length g" for v w
    using that by (metis (no_types, lifting) image_iff)
  then show ?thesis
    using kr_erase_length [OF assms] by (auto simp: edge_rel_def)
qed

lemma kr_erase_wf_graph:
  assumes "map kr_erase g' = map kr_erase g" and wf: "wf_graph g"
  shows "wf_graph g'"
  unfolding wf_graph_def
proof (intro allI impI ballI)
  fix v e assume v: "v < length g'" and e: "e \<in> set (adj (g' ! v))"
  note l = kr_erase_length [OF assms(1)]
  from v l have v': "v < length g" by simp
  from e obtain k where k: "k < length (adj (g' ! v))" "e = adj (g' ! v) ! k"
    by (metis in_set_conv_nth)
  note D = kr_erase_dests [OF assms(1) v']
  from D(1) have lk: "length (adj (g ! v)) = length (adj (g' ! v))" by (metis length_map)
  have "dest e = dest (adj (g ! v) ! k)" "orig e = orig (adj (g ! v) ! k)"
    using D k lk by (metis nth_map)+
  moreover have "adj (g ! v) ! k \<in> set (adj (g ! v))"
    using k lk by simp
  ultimately show "orig e = v \<and> dest e < length g'"
    using wf v' l by (auto simp: wf_graph_def)
qed

lemma reaches_closed:
  "\<forall>u \<in> {x. reaches g 0 x}. u < length g \<longrightarrow> (\<forall>e \<in> set (adj (g ! u)). dest e \<in> {x. reaches g 0 x})"
  using reaches_step by blast

text \<open>The last part of \<open>calculateKruskal\<close>, after the disjoint sets and the selected edges.\<close>

lemma calculateKruskal_after_sets:
  assumes ks: "kruskal_sets g = Some (Inr (g3, k))" and fr: "map kr_erase g3 = map kr_erase g"
    and wf: "wf_graph g" and ne: "g \<noteq> []"
  shows "\<exists>g'. calculateKruskal g = Some (Inr g') \<and> map adj g' = map adj g3
            \<and> (\<forall>x < length g. \<not> reaches g 0 x \<longrightarrow> path (g' ! x) = path (g3 ! x))"
proof -
  note l3 = kr_erase_length [OF fr]
  let ?g4 = "map (\<lambda>v. v\<lparr>visited := False\<rparr>) g3"
  let ?g5 = "?g4[0 := (?g4 ! 0)\<lparr>path := None\<rparr>]"
  let ?g6 = "?g5[0 := (?g5 ! 0)\<lparr>visited := True\<rparr>]"
  from ne l3 have n0: "0 < length g3" "?g4 \<noteq> []" by auto
  have ck: "calculateKruskal g = map_option Inr (dfs_loop ?g6 0 (adj (?g6 ! 0)))"
    using ks n0 by (simp add: calculateKruskal_def bind_res_def Let_def dfsKruskalPath_def)
  have a6: "map adj ?g6 = map adj g3"
    using n0 by (intro nth_equalityI) (simp_all add: nth_upd)
  have wf6: "wf_graph ?g6"
    using wf_graph_cong [OF a6] kr_erase_wf_graph [OF fr wf] by simp
  have er: "edge_rel ?g6 = edge_rel g"
    using edge_rel_cong [OF a6] kr_erase_edge_rel [OF fr] by simp
  then have re: "reaches ?g6 0 x = reaches g 0 x" for x
    by (simp add: reaches_def)
  let ?R = "{x. reaches ?g6 0 x}"
  have r0: "0 \<in> ?R" by (simp add: reaches_def)
  have es: "\<forall>e \<in> set (adj (?g6 ! 0)). dest e < length ?g6 \<and> dest e \<in> ?R"
    using wf6 reaches_closed [of ?g6] r0 n0 by (auto simp: wf_graph_def)
  from dfs_loop_total [OF wf6 reaches_closed order_refl refl es, of 0] obtain g' where
    g': "dfs_loop ?g6 0 (adj (?g6 ! 0)) = Some g'" "map dfs_erase g' = map dfs_erase ?g6"
    "\<forall>x < length ?g6. x \<notin> ?R \<longrightarrow> g' ! x = ?g6 ! x"
    by blast
  have "map adj g' = map adj ?g6"
  proof (rule nth_equalityI)
    show "length (map adj g') = length (map adj ?g6)"
      using dfs_erase_length [OF g'(2)] by simp
    fix i assume "i < length (map adj g')"
    then have "i < length ?g6" using dfs_erase_length [OF g'(2)] by simp
    then show "map adj g' ! i = map adj ?g6 ! i"
      using dfs_erase_adj [OF g'(2)] dfs_erase_length [OF g'(2)] by simp
  qed
  with a6 have a': "map adj g' = map adj g3" by simp
  have "path (g' ! x) = path (g3 ! x)" if x: "x < length g" "\<not> reaches g 0 x" for x
  proof -
    from x re have "x \<notin> ?R" by simp
    moreover from x r0 re have "x \<noteq> 0" by (cases "x = 0") auto
    ultimately have "g' ! x = ?g6 ! x" "?g6 ! x = ?g4 ! x"
      using g'(3) x l3 by simp_all
    then show ?thesis using x l3 by simp
  qed
  with ck g'(1) a' show ?thesis by simp
qed

text \<open>The first three loops return on every graph built with \<open>addBidirectionalEdge\<close>.\<close>

lemma kruskal_sets_returns:
  assumes wf: "wf_bidir g"
  shows "\<exists>g3 k f. kruskal_sets g = Some (Inr (g3, k)) \<and> uf_rel g3 f \<and> map kr_erase g3 = map kr_erase g"
proof -
  have "\<exists>g' k' f'. kruskal_sets g = Some (Inr (g', k')) \<and> uf_rel g' f'
           \<and> map kr_erase g' = map kr_erase g \<and> (\<lambda>f k S ds. True) f' k' (sel g') (kruskal_edges g)"
    by (rule kruskal_sets_rule [OF wf]) simp_all
  then show ?thesis by simp
qed

text \<open>
  C9. On a graph built with \<open>addBidirectionalEdge\<close> in which vertex 0 does not reach the
  vertex \<open>v\<close>, \<open>calculateKruskal\<close> returns, and the parent of \<open>v\<close> in the result is the
  pointer that the disjoint-set loops left in it: not null, but a vertex of the set
  of \<open>v\<close> (\<open>findSet\<close> gives both the same representative), possibly \<open>v\<close> itself.
\<close>

theorem calculateKruskal_unreached:
  assumes wf: "wf_bidir g" and v: "v < length g" and nr: "\<not> reaches g 0 v"
  shows "\<exists>g3 k g' p r h1 h2.
           kruskal_sets g = Some (Inr (g3, k)) \<and> calculateKruskal g = Some (Inr g')
           \<and> path (g' ! v) = path (g3 ! v) \<and> path (g' ! v) = Some p \<and> p < length g
           \<and> findSet g3 v = Some (Inr (r, h1)) \<and> findSet g3 p = Some (Inr (r, h2))"
proof -
  from v have ne: "g \<noteq> []" by auto
  from wf have wfg: "wf_graph g" by (simp add: wf_bidir_def)
  from kruskal_sets_returns [OF wf] obtain g3 k f where
    g3: "kruskal_sets g = Some (Inr (g3, k))" "uf_rel g3 f" "map kr_erase g3 = map kr_erase g"
    by blast
  note l = kr_erase_length [OF g3(3)]
  from calculateKruskal_after_sets [OF g3(1,3) wfg ne] v nr obtain g' where
    g': "calculateKruskal g = Some (Inr g')" "path (g' ! v) = path (g3 ! v)"
    by blast
  from uf_relD(4) [OF g3(2), of v] v l obtain p where
    p: "p < length g3" "path (g3 ! v) = Some p" "f p = f v"
    by auto
  from findSet_total [OF g3(2), of v] v l obtain h1 where h1: "findSet g3 v = Some (Inr (f v, h1))"
    by auto
  from findSet_total [OF g3(2) p(1)] p(3) obtain h2 where h2: "findSet g3 p = Some (Inr (f v, h2))"
    by auto
  from g3(1) g' p l h1 h2 show ?thesis by auto
qed


lemma no_edge_unreached:
  assumes "adj (g ! 0) = []" "v \<noteq> 0"
  shows "\<not> reaches g 0 v"
proof
  assume "reaches g 0 v"
  then have "(0, v) \<in> (edge_rel g)\<^sup>*" by (simp add: reaches_def)
  then show False
  proof (cases rule: converse_rtranclE)
    case base
    with assms(2) show False by simp
  next
    case (step y)
    with assms(1) show False by (simp add: edge_rel_def)
  qed
qed

lemma three_apart_eq:
  "three_apart =
    [\<lparr>info = ''A'', adj = [],
      visited = False, distv = 0, path = None, queueIndex = 0, idv = 0, rank = 0\<rparr>,
     \<lparr>info = ''B'',
      adj = [\<lparr>orig = 1, dest = 2, weight = 5, selected = False, reverse = Some (2, 0)\<rparr>],
      visited = False, distv = 0, path = None, queueIndex = 0, idv = 0, rank = 0\<rparr>,
     \<lparr>info = ''C'',
      adj = [\<lparr>orig = 2, dest = 1, weight = 5, selected = False, reverse = Some (1, 0)\<rparr>],
      visited = False, distv = 0, path = None, queueIndex = 0, idv = 0, rank = 0\<rparr>]"
  by (simp add: three_apart_def addVertex_def addBidirectionalEdge_def findVertex_def Vertex_def
        Vertex_addEdge_def set_reverse_def Edge_def Let_def)

lemma three_apart_facts: "wf_bidir three_apart" "1 < length three_apart" "\<not> reaches three_apart 0 1"
proof -
  show "wf_bidir three_apart"
    by (simp add: wf_bidir_def wf_graph_def three_apart_eq All_less_Suc edge_at_def)
  show "1 < length three_apart"
    by (simp add: three_apart_eq)
  show "\<not> reaches three_apart 0 1"
    by (rule no_edge_unreached) (simp_all add: three_apart_eq)
qed

theorem calculateKruskal_unreached_witness:
  "wf_bidir three_apart \<and> 1 < length three_apart \<and> \<not> reaches three_apart 0 1
   \<and> (\<exists>g3 k g' p r h1 h2.
           kruskal_sets three_apart = Some (Inr (g3, k)) \<and> calculateKruskal three_apart = Some (Inr g')
           \<and> path (g' ! 1) = path (g3 ! 1) \<and> path (g' ! 1) = Some p \<and> p < length three_apart
           \<and> findSet g3 1 = Some (Inr (r, h1)) \<and> findSet g3 p = Some (Inr (r, h2)))"
  using calculateKruskal_unreached [OF three_apart_facts] three_apart_facts by blast

section \<open>Which errors the graph functions raise\<close>

text \<open>On any graph whatever, a result of \<open>findSet\<close> is a null dereference or a graph of the same size.\<close>

lemma findSet_partial:
  assumes "findSet g x = Some y"
  shows "case y of Inl e \<Rightarrow> e = NullDeref | Inr (r, g') \<Rightarrow> length g' = length g"
proof -
  let ?P = "\<lambda>(g :: 'a graph) (x :: vref) (y :: error + vref \<times> 'a graph).
              case y of Inl e \<Rightarrow> e = NullDeref | Inr (r, g') \<Rightarrow> length g' = length g"
  have "(case (g, x) of (g, x) \<Rightarrow> ?P g x) y"
  proof (rule findSet.raw_induct [where P = ?P and xa = "(g, x)" and y = y])
    show "(case (g, x) of (g, x) \<Rightarrow> findSet g x) = Some y"
      using assms by simp
  next
    fix fs :: "'a graph \<Rightarrow> vref \<Rightarrow> (error + vref \<times> 'a graph) option" and g x y
    assume IH: "\<And>g x y. fs g x = Some y \<Longrightarrow> ?P g x y"
      and b: "(case path (g ! x) of None \<Rightarrow> Some (Inl NullDeref)
      | Some p \<Rightarrow>
          if x \<noteq> p
          then Option.bind (fs g p)
                (\<lambda>r. case r of Inl e \<Rightarrow> Some (Inl e)
                     | Inr (rep, g') \<Rightarrow> Some (Inr (rep, g'[x := (g' ! x)\<lparr>path := Some rep\<rparr>])))
          else Some (Inr (p, g))) = Some y"
    show "?P g x y"
    proof (cases "path (g ! x)")
      case None
      with b show ?thesis by auto
    next
      case (Some p)
      show ?thesis
      proof (cases "x = p")
        case True
        with b Some show ?thesis by auto
      next
        case False
        with b Some obtain r where r: "fs g p = Some r"
          and y: "(case r of Inl e \<Rightarrow> Some (Inl e)
                     | Inr (rep, g') \<Rightarrow> Some (Inr (rep, g'[x := (g' ! x)\<lparr>path := Some rep\<rparr>]))) = Some y"
          by (auto simp: bind_eq_Some_conv)
        from IH [OF r] y show ?thesis
          by (auto split: sum.splits)
      qed
    qed
  qed
  then show ?thesis by simp
qed

lemma bind_res_Some:
  assumes "bind_res m f = Some y"
  shows "m = Some (Inl NullDeref) \<and> y = Inl NullDeref \<or> (\<exists>e. m = Some (Inl e) \<and> e \<noteq> NullDeref)
         \<or> (\<exists>x. m = Some (Inr x) \<and> f x = Some y)"
  using assms by (auto simp: bind_res_def split: option.splits sum.splits)

lemma linkSets_partial:
  assumes "linkSets x y g = Some z"
  shows "case z of Inl e \<Rightarrow> e = NullDeref | Inr g' \<Rightarrow> length g' = length g"
proof -
  from bind_res_Some [OF assms [unfolded linkSets_def]] show ?thesis
  proof (elim disjE exE conjE)
    assume "z = Inl NullDeref" then show ?thesis by simp
  next
    fix e assume "findSet g x = Some (Inl e)" "e \<noteq> NullDeref"
    with findSet_partial [of g x "Inl e"] show ?thesis by simp
  next
    fix a assume a: "findSet g x = Some (Inr a)"
      and r: "(case a of (i, g1) \<Rightarrow>
         bind_res (findSet g1 y) (\<lambda>(j, g2).
           if rank (g2 ! i) > rank (g2 ! j) then Some (Inr (g2[j := (g2 ! j)\<lparr>path := Some i\<rparr>]))
           else (let g3 = g2[i := (g2 ! i)\<lparr>path := Some j\<rparr>] in
             if rank (g3 ! i) = rank (g3 ! j)
             then Some (Inr (g3[j := (g3 ! j)\<lparr>rank := rank (g3 ! j) + 1\<rparr>]))
             else Some (Inr g3)))) = Some z"
    obtain i g1 where ai: "a = (i, g1)" by (cases a)
    from findSet_partial [OF a] ai have l1: "length g1 = length g" by simp
    from r ai have r': "bind_res (findSet g1 y) (\<lambda>(j, g2).
           if rank (g2 ! i) > rank (g2 ! j) then Some (Inr (g2[j := (g2 ! j)\<lparr>path := Some i\<rparr>]))
           else (let g3 = g2[i := (g2 ! i)\<lparr>path := Some j\<rparr>] in
             if rank (g3 ! i) = rank (g3 ! j)
             then Some (Inr (g3[j := (g3 ! j)\<lparr>rank := rank (g3 ! j) + 1\<rparr>]))
             else Some (Inr g3))) = Some z" by simp
    from bind_res_Some [OF r'] show ?thesis
    proof (elim disjE exE conjE)
      assume "z = Inl NullDeref" then show ?thesis by simp
    next
      fix e assume "findSet g1 y = Some (Inl e)" "e \<noteq> NullDeref"
      with findSet_partial [of g1 y "Inl e"] show ?thesis by simp
    next
      fix b assume b: "findSet g1 y = Some (Inr b)"
        and z: "(case b of (j, g2) \<Rightarrow>
           if rank (g2 ! i) > rank (g2 ! j) then Some (Inr (g2[j := (g2 ! j)\<lparr>path := Some i\<rparr>]))
           else (let g3 = g2[i := (g2 ! i)\<lparr>path := Some j\<rparr>] in
             if rank (g3 ! i) = rank (g3 ! j)
             then Some (Inr (g3[j := (g3 ! j)\<lparr>rank := rank (g3 ! j) + 1\<rparr>]))
             else Some (Inr g3))) = Some z"
      obtain j g2 where bj: "b = (j, g2)" by (cases b)
      from findSet_partial [OF b] bj l1 have l2: "length g2 = length g" by simp
      from z bj l2 show ?thesis
        by (auto simp: Let_def split: if_splits)
    qed
  qed
qed


lemma kruskal_loop_partial:
  assumes "kruskal_loop es g k = Some z"
  shows "case z of Inl e \<Rightarrow> e = NullDeref | Inr (g', k') \<Rightarrow> length g' = length g"
  using assms
proof (induction es arbitrary: g k)
  case Nil
  then show ?case by auto
next
  case (Cons e es)
  from bind_res_Some [OF Cons.prems [unfolded kruskal_loop.simps]] show ?case
  proof (elim disjE exE conjE)
    assume "z = Inl NullDeref" then show ?thesis by simp
  next
    fix e' assume "findSet g (orig (the_edge g e)) = Some (Inl e')" "e' \<noteq> NullDeref"
    with findSet_partial [of g "orig (the_edge g e)" "Inl e'"] show ?thesis by simp
  next
    fix a assume a: "findSet g (orig (the_edge g e)) = Some (Inr a)"
      and r: "(case a of (i, g1) \<Rightarrow>
        bind_res (findSet g1 (dest (the_edge g1 e))) (\<lambda>(j, g2).
          if i \<noteq> j then
            bind_res (linkSets (orig (the_edge g2 e)) (dest (the_edge g2 e)) g2) (\<lambda>g3.
              (let g4 = set_selected e True g3 in
               case reverse (the_edge g4 e) of
                 None \<Rightarrow> Some (Inl NullDeref)
               | Some r \<Rightarrow> kruskal_loop es (set_selected r True g4) (Suc k)))
          else kruskal_loop es g2 k)) = Some z"
    obtain i g1 where ai: "a = (i, g1)" by (cases a)
    from findSet_partial [OF a] ai have l1: "length g1 = length g" by simp
    from r ai have r': "bind_res (findSet g1 (dest (the_edge g1 e))) (\<lambda>(j, g2).
          if i \<noteq> j then
            bind_res (linkSets (orig (the_edge g2 e)) (dest (the_edge g2 e)) g2) (\<lambda>g3.
              (let g4 = set_selected e True g3 in
               case reverse (the_edge g4 e) of
                 None \<Rightarrow> Some (Inl NullDeref)
               | Some r \<Rightarrow> kruskal_loop es (set_selected r True g4) (Suc k)))
          else kruskal_loop es g2 k) = Some z" by simp
    from bind_res_Some [OF r'] show ?thesis
    proof (elim disjE exE conjE)
      assume "z = Inl NullDeref" then show ?thesis by simp
    next
      fix e' assume "findSet g1 (dest (the_edge g1 e)) = Some (Inl e')" "e' \<noteq> NullDeref"
      with findSet_partial [of g1 "dest (the_edge g1 e)" "Inl e'"] show ?thesis by simp
    next
      fix b assume b: "findSet g1 (dest (the_edge g1 e)) = Some (Inr b)"
        and z: "(case b of (j, g2) \<Rightarrow>
          if i \<noteq> j then
            bind_res (linkSets (orig (the_edge g2 e)) (dest (the_edge g2 e)) g2) (\<lambda>g3.
              (let g4 = set_selected e True g3 in
               case reverse (the_edge g4 e) of
                 None \<Rightarrow> Some (Inl NullDeref)
               | Some r \<Rightarrow> kruskal_loop es (set_selected r True g4) (Suc k)))
          else kruskal_loop es g2 k) = Some z"
      obtain j g2 where bj: "b = (j, g2)" by (cases b)
      from findSet_partial [OF b] bj l1 have l2: "length g2 = length g" by simp
      show ?thesis
      proof (cases "i = j")
        case True
        with z bj have "kruskal_loop es g2 k = Some z" by simp
        from Cons.IH [OF this] l2 show ?thesis by (auto split: sum.splits)
      next
        case False
        with z bj have z': "bind_res (linkSets (orig (the_edge g2 e)) (dest (the_edge g2 e)) g2) (\<lambda>g3.
              (let g4 = set_selected e True g3 in
               case reverse (the_edge g4 e) of
                 None \<Rightarrow> Some (Inl NullDeref)
               | Some r \<Rightarrow> kruskal_loop es (set_selected r True g4) (Suc k))) = Some z" by simp
        from bind_res_Some [OF z'] show ?thesis
        proof (elim disjE exE conjE)
          assume "z = Inl NullDeref" then show ?thesis by simp
        next
          fix e' assume "linkSets (orig (the_edge g2 e)) (dest (the_edge g2 e)) g2 = Some (Inl e')" "e' \<noteq> NullDeref"
          with linkSets_partial [of "orig (the_edge g2 e)" "dest (the_edge g2 e)" g2 "Inl e'"]
          show ?thesis by simp
        next
          fix g3 assume c: "linkSets (orig (the_edge g2 e)) (dest (the_edge g2 e)) g2 = Some (Inr g3)"
            and w: "(let g4 = set_selected e True g3 in
               case reverse (the_edge g4 e) of
                 None \<Rightarrow> Some (Inl NullDeref)
               | Some r \<Rightarrow> kruskal_loop es (set_selected r True g4) (Suc k)) = Some z"
          from linkSets_partial [OF c] l2 have l3: "length g3 = length g" by simp
          show ?thesis
          proof (cases "reverse (the_edge (set_selected e True g3) e)")
            case None
            with w show ?thesis by (auto simp: Let_def)
          next
            case (Some r)
            with w have "kruskal_loop es (set_selected r True (set_selected e True g3)) (Suc k) = Some z"
              by (simp add: Let_def)
            from Cons.IH [OF this] l3 show ?thesis by (auto split: sum.splits)
          qed
        qed
      qed
    qed
  qed
qed

lemma kruskal_collect_length: "length (fst (kruskal_collect g)) = length g"
  unfolding kruskal_collect_def
  by (rule fold_inv [where P = "\<lambda>s. length (fst s) = length g"])
     (simp_all add: collect_step_def Let_def split_beta)

lemma kruskal_sets_partial:
  assumes "kruskal_sets g = Some z"
  shows "case z of Inl e \<Rightarrow> e = NullDeref | Inr (g', k') \<Rightarrow> length g' = length g"
proof -
  from assms have "kruskal_loop (sort_edges (fst (kruskal_collect (kruskal_init g)))
                     (snd (kruskal_collect (kruskal_init g))))
                     (fst (kruskal_collect (kruskal_init g))) 0 = Some z"
    by (simp add: kruskal_sets_def Let_def split_beta)
  from kruskal_loop_partial [OF this] show ?thesis
    by (auto simp: kruskal_collect_length kruskal_init_nth(1) split: sum.splits)
qed

lemma calculateKruskal_empty: "calculateKruskal [] = Some (Inl OutOfRange)"
  by (simp add: calculateKruskal_def kruskal_sets_def kruskal_init_def kruskal_collect_def
        all_erefs_def sort_edges_def bind_res_def)

lemma calculateKruskal_OutOfRange: "calculateKruskal g = Some (Inl OutOfRange) \<longleftrightarrow> g = []"
proof
  assume "g = []" then show "calculateKruskal g = Some (Inl OutOfRange)"
    by (simp add: calculateKruskal_empty)
next
  assume a: "calculateKruskal g = Some (Inl OutOfRange)"
  show "g = []"
  proof (rule ccontr)
    assume ne: "g \<noteq> []"
    from bind_res_Some [OF a [unfolded calculateKruskal_def]] show False
    proof (elim disjE exE conjE)
      assume "Inl OutOfRange = (Inl NullDeref :: error + 'a graph)" then show False by simp
    next
      fix e assume "kruskal_sets g = Some (Inl e)" "e \<noteq> NullDeref"
      with kruskal_sets_partial [of g "Inl e"] show False by simp
    next
      fix x assume x: "kruskal_sets g = Some (Inr x)"
        and r: "(case x of (g3, edgeCounter) \<Rightarrow>
          (let g4 = map (\<lambda>v. v\<lparr>visited := False\<rparr>) g3 in
           if g4 = [] then Some (Inl OutOfRange)
           else (let g5 = g4[0 := (g4 ! 0)\<lparr>path := None\<rparr>]
                 in map_option Inr (dfsKruskalPath g5 0)))) = Some (Inl OutOfRange)"
      obtain g3 k where xg: "x = (g3, k)" by (cases x)
      from kruskal_sets_partial [OF x] xg ne have "g3 \<noteq> []" by auto
      with r xg show False by (auto simp: Let_def)
    qed
  qed
qed

lemma calculatePrim_OutOfRange: "calculatePrim g = Some (Inl OutOfRange) \<longleftrightarrow> g = []"
  by (auto simp: calculatePrim_def Let_def)

lemma wf_bidir_wf_graph: "wf_bidir g \<Longrightarrow> wf_graph g"
  by (simp add: wf_bidir_def)

lemma calculateKruskal_returns:
  assumes wf: "wf_bidir g" and ne: "g \<noteq> []"
  shows "\<exists>g'. calculateKruskal g = Some (Inr g')"
proof -
  from kruskal_sets_returns [OF wf] obtain g3 k where
    "kruskal_sets g = Some (Inr (g3, k))" "map kr_erase g3 = map kr_erase g" by blast
  from calculateKruskal_after_sets [OF this wf_bidir_wf_graph [OF wf] ne] show ?thesis by blast
qed

text \<open>
  C3, as the code has it. \<open>calculatePrim\<close> and \<open>calculateKruskal\<close> throw
  \<open>std::out_of_range\<close> exactly on the graph with no vertex. On a graph with a vertex
  that the construction functions built, \<open>calculatePrim\<close> returns the vertex
  collection, and so does \<open>calculateKruskal\<close> when every edge has its reverse.
  \<open>addVertex\<close>, \<open>addEdge\<close> and \<open>addBidirectionalEdge\<close> report a failure by returning false
  and leaving the graph as it is, and \<open>findVertex\<close> by returning no vertex.
\<close>

theorem graph_errors:
  "(calculatePrim g = Some (Inl OutOfRange) \<longleftrightarrow> g = [])
   \<and> (calculateKruskal g = Some (Inl OutOfRange) \<longleftrightarrow> g = [])
   \<and> (wf_graph g \<and> g \<noteq> [] \<longrightarrow> (\<exists>g'. calculatePrim g = Some (Inr g')))
   \<and> (wf_bidir g \<and> g \<noteq> [] \<longrightarrow> (\<exists>g'. calculateKruskal g = Some (Inr g')))
   \<and> (\<not> fst (addVertex c g) \<longrightarrow> snd (addVertex c g) = g)
   \<and> (\<not> fst (addEdge a b w g) \<longrightarrow> snd (addEdge a b w g) = g)
   \<and> (\<not> fst (addBidirectionalEdge a b w g) \<longrightarrow> snd (addBidirectionalEdge a b w g) = g)
   \<and> (findVertex g c = None \<longleftrightarrow> (\<forall>v \<in> set g. info v \<noteq> c))"
proof (intro conjI)
  show "calculatePrim g = Some (Inl OutOfRange) \<longleftrightarrow> g = []"
    by (rule calculatePrim_OutOfRange)
  show "calculateKruskal g = Some (Inl OutOfRange) \<longleftrightarrow> g = []"
    by (rule calculateKruskal_OutOfRange)
  show "wf_graph g \<and> g \<noteq> [] \<longrightarrow> (\<exists>g'. calculatePrim g = Some (Inr g'))"
    using calculatePrim_returns [of g] by blast
  show "wf_bidir g \<and> g \<noteq> [] \<longrightarrow> (\<exists>g'. calculateKruskal g = Some (Inr g'))"
    using calculateKruskal_returns [of g] by blast
  show "\<not> fst (addVertex c g) \<longrightarrow> snd (addVertex c g) = g"
    by (simp add: addVertex_def)
  show "\<not> fst (addEdge a b w g) \<longrightarrow> snd (addEdge a b w g) = g"
    by (auto simp: addEdge_def split: option.splits)
  show "\<not> fst (addBidirectionalEdge a b w g) \<longrightarrow> snd (addBidirectionalEdge a b w g) = g"
    by (auto simp: addBidirectionalEdge_def split: option.splits prod.splits)
  show "findVertex g c = None \<longleftrightarrow> (\<forall>v \<in> set g. info v \<noteq> c)"
    by (rule findVertex_None)
qed

theorem graph_errors_witness:
  "wf_graph scenario \<and> wf_bidir scenario \<and> scenario \<noteq> []
   \<and> (\<exists>g'. calculatePrim scenario = Some (Inr g')) \<and> (\<exists>g'. calculateKruskal scenario = Some (Inr g'))
   \<and> calculatePrim scenario \<noteq> Some (Inl OutOfRange) \<and> calculateKruskal scenario \<noteq> Some (Inl OutOfRange)
   \<and> \<not> fst (addVertex ''A'' scenario) \<and> snd (addVertex ''A'' scenario) = scenario
   \<and> \<not> fst (addEdge ''A'' ''Z'' 1 scenario) \<and> snd (addEdge ''A'' ''Z'' 1 scenario) = scenario
   \<and> \<not> fst (addBidirectionalEdge ''Z'' ''A'' 1 scenario)
   \<and> snd (addBidirectionalEdge ''Z'' ''A'' 1 scenario) = scenario
   \<and> findVertex scenario ''Z'' = None"
proof -
  have ne: "scenario \<noteq> []" by (simp add: scenario_eq)
  have f: "\<not> fst (addVertex ''A'' scenario)" "\<not> fst (addEdge ''A'' ''Z'' 1 scenario)"
    "\<not> fst (addBidirectionalEdge ''Z'' ''A'' 1 scenario)" "\<forall>v \<in> set scenario. info v \<noteq> ''Z''"
    by (simp_all add: scenario_eq addVertex_def addEdge_def addBidirectionalEdge_def findVertex_def)
  from graph_errors [of scenario "''A''" "''A''" "''Z''" 1] graph_errors [of scenario "''Z''" "''Z''" "''A''" 1]
    wf_graph_scenario wf_bidir_scenario ne f
  show ?thesis by simp
qed

text \<open>The claim fails on the graph with no vertex: both algorithms throw there.\<close>

theorem graph_errors_counterexample:
  "calculatePrim ([] :: string graph) = Some (Inl OutOfRange)
   \<and> calculateKruskal ([] :: string graph) = Some (Inl OutOfRange)"
  by (simp add: calculatePrim_empty calculateKruskal_empty)

section \<open>Exchanging an edge of a spanning tree across a cut\<close>

lemma links_sym: "(u, v) \<in> links T \<Longrightarrow> (v, u) \<in> links T"
  by (auto simp: links_def)

lemma links_rtrancl_sym: "(u, v) \<in> (links T)\<^sup>* \<Longrightarrow> (v, u) \<in> (links T)\<^sup>*"
proof (induction rule: rtrancl_induct)
  case base
  show ?case by simp
next
  case (step y z)
  from step.hyps(2) have "(z, y) \<in> links T" by (rule links_sym)
  then show ?case using step.IH by (rule converse_rtrancl_into_rtrancl)
qed

lemma links_mono: "T \<subseteq> T' \<Longrightarrow> links T \<subseteq> links T'"
  by (auto simp: links_def)

lemma links_norm_edge: "(u, v) \<in> links {norm_edge u v w}" "(v, u) \<in> links {norm_edge u v w}"
  by (auto simp: links_def norm_edge_def)

lemma links_avoid:
  assumes "(s, t) \<in> links T" and "s \<noteq> z" "t \<noteq> z" and "fst f = z \<or> fst (snd f) = z"
  shows "(s, t) \<in> links (T - {f})"
  using assms by (auto simp: links_def)

text \<open>A path that does not go through \<open>z\<close> uses no edge at \<open>z\<close>.\<close>

lemma path_avoid:
  assumes "rtrancl_path (\<lambda>s t. (s, t) \<in> links T) x xs y" and "z \<notin> set (x # xs)"
    and f: "fst f = z \<or> fst (snd f) = z"
  shows "(x, y) \<in> (links (T - {f}))\<^sup>*"
  using assms(1,2)
proof (induction rule: rtrancl_path.induct)
  case (base x)
  show ?case by simp
next
  case (step x y ys z')
  then have "(x, y) \<in> links (T - {f})"
    by (intro links_avoid [OF _ _ _ f]) auto
  moreover from step have "(y, z') \<in> (links (T - {f}))\<^sup>*" by simp
  ultimately show ?case by (rule converse_rtrancl_into_rtrancl)
qed

text \<open>A path from inside \<open>S\<close> to outside \<open>S\<close> leaves \<open>S\<close> somewhere for the first time.\<close>

lemma path_first_cross:
  assumes "rtrancl_path r x xs y" and "x \<in> S" "y \<notin> S"
  shows "\<exists>pre u v post ps. x # xs = pre @ u # v # post \<and> r u v \<and> u \<in> S \<and> v \<notin> S
           \<and> rtrancl_path r x ps u \<and> x # ps = pre @ [u] \<and> rtrancl_path r v post y"
  using assms
proof (induction rule: rtrancl_path.induct)
  case (base x)
  then show ?case by simp
next
  case (step x z zs y)
  show ?case
  proof (cases "z \<in> S")
    case False
    have "x # z # zs = [] @ x # z # zs \<and> r x z \<and> x \<in> S \<and> z \<notin> S
           \<and> rtrancl_path r x [] x \<and> x # [] = [] @ [x] \<and> rtrancl_path r z zs y"
      using step.hyps step.prems False by (simp add: rtrancl_path.base)
    then show ?thesis by blast
  next
    case True
    from step.IH [OF True step.prems(2)] obtain pre u v post ps where
      p: "z # zs = pre @ u # v # post" "r u v" "u \<in> S" "v \<notin> S"
         "rtrancl_path r z ps u" "z # ps = pre @ [u]" "rtrancl_path r v post y"
      by blast
    have "x # z # zs = (x # pre) @ u # v # post" using p(1) by simp
    moreover have "rtrancl_path r x (z # ps) u"
      using step.hyps(1) p(5) by (rule rtrancl_path.step)
    moreover have "x # z # ps = (x # pre) @ [u]" using p(6) by simp
    ultimately show ?thesis using p(2,3,4,7) by blast
  qed
qed


lemma norm_edge_weight [simp]: "snd (snd (norm_edge u v w)) = w"
  by (simp add: norm_edge_def)

lemma crosses_norm_edge: "crosses S (norm_edge u v w) \<longleftrightarrow> (u \<in> S) \<noteq> (v \<in> S)"
  by (auto simp: crosses_def norm_edge_def)

text \<open>
  The exchange step behind both algorithms. If a spanning tree \<open>T\<close> contains the edges
  \<open>A\<close>, none of which crosses the cut \<open>S\<close>, and \<open>e\<close> is an edge of least weight among those
  that cross \<open>S\<close>, then some spanning tree of no greater weight contains \<open>A\<close> and \<open>e\<close>.
\<close>

lemma cut_exchange:
  assumes T: "T \<subseteq> E" "finite T" "connects n T"
    and A: "A \<subseteq> T" "\<forall>a \<in> A. \<not> crosses S a"
    and xy: "x \<in> S" "y \<notin> S" "x < n" "y < n" "norm_edge x y w \<in> E"
    and least: "\<forall>f \<in> E. crosses S f \<longrightarrow> w \<le> snd (snd f)"
  shows "\<exists>T'. T' \<subseteq> E \<and> finite T' \<and> card T' = card T \<and> connects n T'
           \<and> tree_weight T' \<le> tree_weight T \<and> insert (norm_edge x y w) A \<subseteq> T'"
proof (cases "norm_edge x y w \<in> T")
  case True
  with T A show ?thesis by (intro exI [of _ T]) simp
next
  case False
  let ?e = "norm_edge x y w"
  let ?r = "\<lambda>s t. (s, t) \<in> links T"
  have "(x, 0) \<in> (links T)\<^sup>*" "(0, y) \<in> (links T)\<^sup>*"
    using T(3) xy(3,4) links_rtrancl_sym [of 0 x T] by (simp_all add: connects_def)
  then have "(x, y) \<in> (links T)\<^sup>*" by (rule rtrancl_trans)
  then have "?r\<^sup>*\<^sup>* x y" by (simp add: rtranclp_rtrancl_eq)
  then obtain xs0 where "rtrancl_path ?r x xs0 y"
    by (auto simp: rtranclp_eq_rtrancl_path)
  then obtain xs where xs: "rtrancl_path ?r x xs y" "distinct (x # xs)"
    by (rule rtrancl_path_distinct)
  from path_first_cross [OF xs(1) xy(1,2)] obtain pre u v post ps where
    p: "x # xs = pre @ u # v # post" "(u, v) \<in> links T" "u \<in> S" "v \<notin> S"
       "rtrancl_path ?r x ps u" "x # ps = pre @ [u]" "rtrancl_path ?r v post y"
    by blast
  from xs(2) p(1) have d: "v \<notin> set (x # ps)" "u \<notin> set (v # post)"
    unfolding p(6) by auto
  from p(2) obtain f where f: "f \<in> T" "fst f = u \<and> fst (snd f) = v \<or> fst f = v \<and> fst (snd f) = u"
    by (auto simp: links_def)
  then have cf: "crosses S f" using p(3,4) by (auto simp: crosses_def)
  with A(2) have fA: "f \<notin> A" by auto
  from cf f(1) T(1) least have wf: "w \<le> snd (snd f)" by auto
  let ?T' = "insert ?e (T - {f})"
  have xu: "(x, u) \<in> (links (T - {f}))\<^sup>*"
    using f(2) by (intro path_avoid [OF p(5) d(1)]) auto
  have vy: "(v, y) \<in> (links (T - {f}))\<^sup>*"
    using f(2) by (intro path_avoid [OF p(7) d(2)]) auto
  have m: "(links (T - {f}))\<^sup>* \<subseteq> (links ?T')\<^sup>*"
    by (intro rtrancl_mono links_mono) auto
  have "(x, y) \<in> links ?T'"
    using links_norm_edge(1) [of x y w] links_mono [of "{?e}" ?T'] by auto
  then have xy': "(x, y) \<in> (links ?T')\<^sup>*" by simp
  have "(u, x) \<in> (links ?T')\<^sup>*" "(y, v) \<in> (links ?T')\<^sup>*"
    using xu vy m links_rtrancl_sym [of _ _ ?T'] by blast+
  then have uv: "(u, v) \<in> (links ?T')\<^sup>*"
    using xy' by (meson rtrancl_trans)
  then have vu: "(v, u) \<in> (links ?T')\<^sup>*" by (rule links_rtrancl_sym)
  have sub: "links T \<subseteq> (links ?T')\<^sup>*"
  proof
    fix z assume z: "z \<in> links T"
    obtain s t where st: "z = (s, t)" by (cases z)
    from z st obtain h where h: "h \<in> T" "fst h = s \<and> fst (snd h) = t \<or> fst h = t \<and> fst (snd h) = s"
      by (auto simp: links_def)
    show "z \<in> (links ?T')\<^sup>*"
    proof (cases "h = f")
      case True
      with h(2) f(2) have "(s = u \<and> t = v) \<or> (s = v \<and> t = u)" by auto
      with uv vu st show ?thesis by auto
    next
      case False
      with h have "(s, t) \<in> links ?T'"
        by (cases h) (auto simp: links_def)
      with st show ?thesis by auto
    qed
  qed
  have c': "connects n ?T'"
    using T(3) rtrancl_subset_rtrancl [OF sub] by (auto simp: connects_def)
  have fin: "finite (T - {f})" using T(2) by simp
  have eT: "?e \<notin> T - {f}" using False by simp
  have "card ?T' = Suc (card (T - {f}))"
    using fin eT by simp
  also have "\<dots> = card T"
    using T(2) f(1) by (rule card_Suc_Diff1)
  finally have card: "card ?T' = card T" .
  have "tree_weight ?T' = w + tree_weight (T - {f})"
    using fin eT by (simp add: tree_weight_def)
  moreover have "tree_weight T = snd (snd f) + tree_weight (T - {f})"
    using T(2) f(1) by (simp add: tree_weight_def sum.remove)
  ultimately have wt: "tree_weight ?T' \<le> tree_weight T"
    using wf by simp
  have "?T' \<subseteq> E" using T(1) xy(5) by auto
  moreover have "insert ?e A \<subseteq> ?T'" using A(1) fA by auto
  ultimately show ?thesis
    using T(2) card c' wt by (intro exI [of _ ?T']) simp
qed

lemma finite_uedges: "finite (uedges g)"
proof -
  have "uedges g \<subseteq> (\<Union>u \<in> {..<length g}. (\<lambda>e. norm_edge u (dest e) (weight e)) ` set (adj (g ! u)))"
    by (auto simp: uedges_def)
  moreover have "finite (\<Union>u \<in> {..<length g}. (\<lambda>e. norm_edge u (dest e) (weight e)) ` set (adj (g ! u)))"
    by simp
  ultimately show ?thesis by (rule finite_subset)
qed

lemma extendable_empty: "extendable g {}"
  unfolding extendable_def by blast

lemma extendable_insert:
  assumes ex: "extendable g A" and A: "\<forall>a \<in> A. \<not> crosses S a"
    and xy: "x \<in> S" "y \<notin> S" "x < length g" "y < length g" "norm_edge x y w \<in> uedges g"
    and least: "\<forall>f \<in> uedges g. crosses S f \<longrightarrow> w \<le> snd (snd f)"
  shows "extendable g (insert (norm_edge x y w) A)"
  unfolding extendable_def
proof (intro allI impI)
  fix T assume "spanning_tree g T"
  with ex obtain T1 where T1: "spanning_tree g T1" "tree_weight T1 \<le> tree_weight T" "A \<subseteq> T1"
    unfolding extendable_def by blast
  from T1(1) have s: "T1 \<subseteq> uedges g" "card T1 = length g - 1" "connects (length g) T1"
    by (simp_all add: spanning_tree_def)
  from s(1) have fin: "finite T1" using finite_uedges by (rule finite_subset)
  from cut_exchange [OF s(1) fin s(3) T1(3) A xy least] obtain T' where
    T': "T' \<subseteq> uedges g" "card T' = card T1" "connects (length g) T'"
        "tree_weight T' \<le> tree_weight T1" "insert (norm_edge x y w) A \<subseteq> T'"
    by blast
  have "spanning_tree g T'"
    using T'(1,2,3) s(2) by (simp add: spanning_tree_def)
  moreover have "tree_weight T' \<le> tree_weight T"
    using T'(4) T1(2) by simp
  ultimately show "\<exists>T'. spanning_tree g T' \<and> tree_weight T' \<le> tree_weight T
                    \<and> insert (norm_edge x y w) A \<subseteq> T'"
    using T'(5) by blast
qed

lemma extendable_final:
  assumes ex: "extendable g A" and A: "A \<subseteq> uedges g" "card A = length g - 1" "connects (length g) A"
  shows "is_mst g A"
  unfolding is_mst_def
proof (intro conjI allI impI)
  show "spanning_tree g A" using A by (simp add: spanning_tree_def)
  fix T assume "spanning_tree g T"
  with ex obtain T' where T': "spanning_tree g T'" "tree_weight T' \<le> tree_weight T" "A \<subseteq> T'"
    unfolding extendable_def by blast
  from T'(1) have "T' \<subseteq> uedges g" "card T' = length g - 1"
    by (simp_all add: spanning_tree_def)
  then have "finite T'" "card A = card T'"
    using finite_uedges [of g] A(2) by (auto intro: finite_subset)
  with T'(3) have "A = T'" by (intro card_subset_eq)
  with T'(2) show "tree_weight A \<le> tree_weight T" by simp
qed

section \<open>Prim's algorithm finds a minimum spanning tree\<close>

lemma fold_establish:
  assumes "P s"
    and "\<And>x s. x \<in> set xs \<Longrightarrow> P s \<Longrightarrow> P (f x s) \<and> Q x (f x s)"
    and "\<And>x y s. x \<in> set xs \<Longrightarrow> P s \<Longrightarrow> Q y s \<Longrightarrow> Q y (f x s)"
  shows "P (fold f xs s) \<and> (\<forall>x \<in> set xs. Q x (fold f xs s))"
  using assms(2,3)
proof (induction xs rule: rev_induct)
  case Nil
  then show ?case using assms(1) by simp
next
  case (snoc x xs)
  have IH: "P (fold f xs s) \<and> (\<forall>x \<in> set xs. Q x (fold f xs s))"
    by (rule snoc.IH) (auto intro: snoc.prems(1) [THEN conjunct1] snoc.prems(1) [THEN conjunct2] snoc.prems(2))
  from snoc.prems(1) [of x "fold f xs s"] IH
  have "P (f x (fold f xs s))" "Q x (f x (fold f xs s))" by simp_all
  moreover have "Q y (f x (fold f xs s))" if "y \<in> set xs" for y
    using snoc.prems(2) [of x "fold f xs s" y] IH that by simp
  ultimately show ?case by auto
qed

lemma relaxed_refl: "relaxed h h"
  by (simp add: relaxed_def)

lemma relaxed_trans: "relaxed h h' \<Longrightarrow> relaxed h' h'' \<Longrightarrow> relaxed h h''"
  unfolding relaxed_def by (auto intro: order_trans)

lemma relaxed_vis: "relaxed h h' \<Longrightarrow> vis h' = vis h"
  by (auto simp: relaxed_def vis_def)

lemma relaxed_tree_of: "relaxed h h' \<Longrightarrow> tree_of h' = tree_of h"
proof -
  assume r: "relaxed h h'"
  have "h' ! v = h ! v" if "v \<in> vis h" for v
    using r that by (simp add: relaxed_def vis_def)
  then show ?thesis
    unfolding tree_of_def relaxed_vis [OF r] by (metis (no_types, lifting))
qed

lemma relaxed_tree_ok:
  assumes r: "relaxed h h'" and ok: "prim_tree_ok g h"
  shows "prim_tree_ok g h'"
proof -
  have "h' ! v = h ! v" if "v \<in> vis h" for v
    using r that by (simp add: relaxed_def vis_def)
  then have "(\<Sum>v \<in> vis h - {0}. distv (h' ! v)) = (\<Sum>v \<in> vis h - {0}. distv (h ! v))"
    by (intro sum.cong) simp_all
  with ok show ?thesis
    by (simp add: prim_tree_ok_def relaxed_tree_of [OF r] relaxed_vis [OF r])
qed


lemma prim_relax_cases2:
  "((visited (g ! dest e) \<or> distv (g ! dest e) \<le> weight e) \<and> prim_relax c e (g, q) = (g, q))
   \<or> (\<not> visited (g ! dest e) \<and> weight e < distv (g ! dest e)
      \<and> prim_relax c e (g, q) =
          (g[dest e := (g ! dest e)\<lparr>distv := weight e, path := Some c\<rparr>],
           if distv (g ! dest e) = INF_dbl then q @ [dest e] else q))"
  by (auto simp: prim_relax_def Let_def insert_q_def decreaseKey_def)

lemma prim_structD:
  assumes "prim_struct g X (h, q)"
  shows "map prim_reset h = map prim_reset g" and "length h = length g"
    and "visited (h ! 0)" and "path (h ! 0) = None"
    and "distinct q"
    and "set q = {v. v < length g \<and> \<not> visited (h ! v) \<and> distv (h ! v) < INF_dbl}"
    and "\<And>v. v < length g \<Longrightarrow> distv (h ! v) \<le> INF_dbl"
    and "\<And>v. v < length g \<Longrightarrow> \<not> visited (h ! v) \<Longrightarrow> distv (h ! v) < INF_dbl \<Longrightarrow>
           \<exists>p < length g. path (h ! v) = Some p \<and> visited (h ! p)
              \<and> (\<exists>e \<in> set (adj (g ! p)). dest e = v \<and> weight e = distv (h ! v))"
    and "\<And>p e. p < length g \<Longrightarrow> visited (h ! p) \<Longrightarrow> p \<notin> X \<Longrightarrow> e \<in> set (adj (g ! p))
           \<Longrightarrow> \<not> visited (h ! dest e) \<Longrightarrow> distv (h ! dest e) \<le> weight e"
    and "\<And>v. v < length g \<Longrightarrow> visited (h ! v) \<Longrightarrow> v \<noteq> 0 \<Longrightarrow>
           \<exists>p < length g. path (h ! v) = Some p \<and> visited (h ! p) \<and> p \<noteq> v
              \<and> norm_edge p v (distv (h ! v)) \<in> uedges g"
proof -
  from assms show "map prim_reset h = map prim_reset g" by (simp add: prim_struct_def)
  then show "length h = length g" by (rule reset_length)
  from assms show "visited (h ! 0)" "path (h ! 0) = None" "distinct q"
    "set q = {v. v < length g \<and> \<not> visited (h ! v) \<and> distv (h ! v) < INF_dbl}"
    by (simp_all add: prim_struct_def)
  from assms have a: "\<forall>v < length g. distv (h ! v) \<le> INF_dbl"
    by (simp add: prim_struct_def)
  then show "\<And>v. v < length g \<Longrightarrow> distv (h ! v) \<le> INF_dbl" by blast
  from assms have b: "\<forall>v < length g. \<not> visited (h ! v) \<and> distv (h ! v) < INF_dbl \<longrightarrow>
           (\<exists>p < length g. path (h ! v) = Some p \<and> visited (h ! p)
              \<and> (\<exists>e \<in> set (adj (g ! p)). dest e = v \<and> weight e = distv (h ! v)))"
    by (simp add: prim_struct_def)
  then show "\<And>v. v < length g \<Longrightarrow> \<not> visited (h ! v) \<Longrightarrow> distv (h ! v) < INF_dbl \<Longrightarrow>
           \<exists>p < length g. path (h ! v) = Some p \<and> visited (h ! p)
              \<and> (\<exists>e \<in> set (adj (g ! p)). dest e = v \<and> weight e = distv (h ! v))"
    by blast
  from assms have c: "\<forall>p < length g. visited (h ! p) \<and> p \<notin> X \<longrightarrow>
           (\<forall>e \<in> set (adj (g ! p)). \<not> visited (h ! dest e) \<longrightarrow> distv (h ! dest e) \<le> weight e)"
    by (simp add: prim_struct_def)
  then show "\<And>p e. p < length g \<Longrightarrow> visited (h ! p) \<Longrightarrow> p \<notin> X \<Longrightarrow> e \<in> set (adj (g ! p))
           \<Longrightarrow> \<not> visited (h ! dest e) \<Longrightarrow> distv (h ! dest e) \<le> weight e"
    by blast
  from assms have d: "\<forall>v < length g. visited (h ! v) \<and> v \<noteq> 0 \<longrightarrow>
           (\<exists>p < length g. path (h ! v) = Some p \<and> visited (h ! p) \<and> p \<noteq> v
              \<and> norm_edge p v (distv (h ! v)) \<in> uedges g)"
    by (simp add: prim_struct_def)
  then show "\<And>v. v < length g \<Longrightarrow> visited (h ! v) \<Longrightarrow> v \<noteq> 0 \<Longrightarrow>
           \<exists>p < length g. path (h ! v) = Some p \<and> visited (h ! p) \<and> p \<noteq> v
              \<and> norm_edge p v (distv (h ! v)) \<in> uedges g"
    by blast
qed

lemma prim_structI:
  assumes "map prim_reset h = map prim_reset g"
    and "visited (h ! 0)" and "path (h ! 0) = None"
    and "distinct q"
    and "set q = {v. v < length g \<and> \<not> visited (h ! v) \<and> distv (h ! v) < INF_dbl}"
    and "\<And>v. v < length g \<Longrightarrow> distv (h ! v) \<le> INF_dbl"
    and "\<And>v. v < length g \<Longrightarrow> \<not> visited (h ! v) \<Longrightarrow> distv (h ! v) < INF_dbl \<Longrightarrow>
           \<exists>p < length g. path (h ! v) = Some p \<and> visited (h ! p)
              \<and> (\<exists>e \<in> set (adj (g ! p)). dest e = v \<and> weight e = distv (h ! v))"
    and "\<And>p e. p < length g \<Longrightarrow> visited (h ! p) \<Longrightarrow> p \<notin> X \<Longrightarrow> e \<in> set (adj (g ! p))
           \<Longrightarrow> \<not> visited (h ! dest e) \<Longrightarrow> distv (h ! dest e) \<le> weight e"
    and "\<And>v. v < length g \<Longrightarrow> visited (h ! v) \<Longrightarrow> v \<noteq> 0 \<Longrightarrow>
           \<exists>p < length g. path (h ! v) = Some p \<and> visited (h ! p) \<and> p \<noteq> v
              \<and> norm_edge p v (distv (h ! v)) \<in> uedges g"
  shows "prim_struct g X (h, q)"
  unfolding prim_struct_def fst_conv snd_conv
  using assms by (intro conjI allI impI ballI) blast+


text \<open>One relaxation of an edge of the vertex \<open>c\<close> that is being visited.\<close>

lemma prim_relax_struct:
  assumes wf: "wf_graph g" and s: "prim_struct g {c} s"
    and c: "c < length g" "visited (fst s ! c)" and e: "e \<in> set (adj (g ! c))"
  shows "prim_struct g {c} (prim_relax c e s)"
    and "relaxed (fst s) (fst (prim_relax c e s))"
    and "settled e (prim_relax c e s)"
proof -
  obtain h q where hq: "s = (h, q)" by (cases s)
  note D = prim_structD [OF s [unfolded hq]]
  let ?n = "length g"
  let ?d = "dest e"
  from wf c(1) e have d: "?d < ?n" by (auto simp: wf_graph_def)
  let ?h' = "h[?d := (h ! ?d)\<lparr>distv := weight e, path := Some c\<rparr>]"
  let ?q' = "if distv (h ! ?d) = INF_dbl then q @ [?d] else q"
  have goal: "prim_struct g {c} (prim_relax c e s) \<and> relaxed (fst s) (fst (prim_relax c e s))
              \<and> settled e (prim_relax c e s)"
    using prim_relax_cases2 [of h e c q]
  proof
    assume a: "(visited (h ! ?d) \<or> distv (h ! ?d) \<le> weight e) \<and> prim_relax c e (h, q) = (h, q)"
    then have "settled e (h, q)" by (auto simp: settled_def)
    with a s hq show ?thesis by (simp add: relaxed_refl)
  next
    assume a: "\<not> visited (h ! ?d) \<and> weight e < distv (h ! ?d) \<and> prim_relax c e (h, q) = (?h', ?q')"
    then have nv: "\<not> visited (h ! ?d)" and lt: "weight e < distv (h ! ?d)"
      and r: "prim_relax c e (h, q) = (?h', ?q')" by simp_all
    from lt D(7) [OF d] have w: "weight e < INF_dbl" by simp
    have d0: "?d \<noteq> 0"
    proof
      assume "?d = 0"
      with nv D(3) show False by simp
    qed
    have dl: "?d < length h" using d D(2) by simp
    have hv: "visited (?h' ! v) = visited (h ! v)" if "v < ?n" for v
      using that D(2) by (simp add: nth_upd)
    have hd: "distv (?h' ! v) = (if v = ?d then weight e else distv (h ! v))" if "v < ?n" for v
      using that D(2) by (simp add: nth_upd)
    have hp: "path (?h' ! v) = (if v = ?d then Some c else path (h ! v))" if "v < ?n" for v
      using that D(2) by (simp add: nth_upd)
    have mem: "v \<in> set q \<longleftrightarrow> v < ?n \<and> \<not> visited (h ! v) \<and> distv (h ! v) < INF_dbl" for v
      unfolding D(6) by simp
    have dq: "distv (h ! ?d) \<noteq> INF_dbl \<Longrightarrow> ?d \<in> set q"
      using D(7) [OF d] d nv unfolding mem by simp
    have qset: "set ?q' = {v. v < ?n \<and> \<not> visited (?h' ! v) \<and> distv (?h' ! v) < INF_dbl}"
    proof (rule set_eqI)
      fix v
      show "v \<in> set ?q' \<longleftrightarrow> v \<in> {v. v < ?n \<and> \<not> visited (?h' ! v) \<and> distv (?h' ! v) < INF_dbl}"
      proof (cases "v = ?d")
        case True
        have "?d \<in> set ?q'" using dq by simp
        moreover have "?d < ?n \<and> \<not> visited (?h' ! ?d) \<and> distv (?h' ! ?d) < INF_dbl"
          using d nv w by (simp add: hv hd)
        ultimately show ?thesis using True by simp
      next
        case False
        then have "v \<in> set ?q' \<longleftrightarrow> v \<in> set q" by simp
        moreover have "v < ?n \<Longrightarrow> visited (?h' ! v) = visited (h ! v) \<and> distv (?h' ! v) = distv (h ! v)"
          using False by (simp add: hv hd)
        ultimately show ?thesis unfolding mem by auto
      qed
    qed
    have "distv (h ! ?d) = INF_dbl \<Longrightarrow> ?d \<notin> set q"
      unfolding mem by simp
    with D(5) have qdist: "distinct ?q'" by simp
    have "prim_struct g {c} (?h', ?q')"
    proof (rule prim_structI)
      have "map prim_reset ?h' = map prim_reset h"
        using dl by (intro map_update_same) (simp_all add: prim_reset_def)
      with D(1) show "map prim_reset ?h' = map prim_reset g" by simp
      show "visited (?h' ! 0)" "path (?h' ! 0) = None"
        using D(3,4) d0 by simp_all
      show "distinct ?q'" by (rule qdist)
      show "set ?q' = {v. v < ?n \<and> \<not> visited (?h' ! v) \<and> distv (?h' ! v) < INF_dbl}"
        by (rule qset)
    next
      fix v assume "v < ?n"
      then show "distv (?h' ! v) \<le> INF_dbl"
        using D(7) [of v] w by (simp add: hd)
    next
      fix v assume v: "v < ?n" "\<not> visited (?h' ! v)" "distv (?h' ! v) < INF_dbl"
      show "\<exists>p < ?n. path (?h' ! v) = Some p \<and> visited (?h' ! p)
              \<and> (\<exists>e \<in> set (adj (g ! p)). dest e = v \<and> weight e = distv (?h' ! v))"
      proof (cases "v = ?d")
        case True
        have "path (?h' ! v) = Some c \<and> visited (?h' ! c)
              \<and> (\<exists>e \<in> set (adj (g ! c)). dest e = v \<and> weight e = distv (?h' ! v))"
          using True c hq e d by (auto simp: hv hd hp)
        with c(1) show ?thesis by blast
      next
        case False
        with v have "\<not> visited (h ! v)" "distv (h ! v) < INF_dbl"
          by (simp_all add: hv hd)
        from D(8) [OF v(1) this] obtain p where
          "p < ?n" "path (h ! v) = Some p" "visited (h ! p)"
          "\<exists>e \<in> set (adj (g ! p)). dest e = v \<and> weight e = distv (h ! v)" by blast
        then have "path (?h' ! v) = Some p \<and> visited (?h' ! p)
              \<and> (\<exists>e \<in> set (adj (g ! p)). dest e = v \<and> weight e = distv (?h' ! v))"
          using False v(1) by (simp add: hv hd hp)
        with \<open>p < ?n\<close> show ?thesis by blast
      qed
    next
      fix p e2 assume p: "p < ?n" "visited (?h' ! p)" "p \<notin> {c}" "e2 \<in> set (adj (g ! p))"
        "\<not> visited (?h' ! dest e2)"
      from wf p(1,4) have d2: "dest e2 < ?n" by (auto simp: wf_graph_def)
      from p d2 have "distv (h ! dest e2) \<le> weight e2"
        by (intro D(9) [of p e2]) (simp_all add: hv)
      then show "distv (?h' ! dest e2) \<le> weight e2"
        using lt d2 by (auto simp: hd)
    next
      fix v assume v: "v < ?n" "visited (?h' ! v)" "v \<noteq> 0"
      then have vv: "visited (h ! v)" by (simp add: hv)
      with nv have vd: "v \<noteq> ?d" by auto
      from D(10) [OF v(1) vv v(3)] obtain p where
        p: "p < ?n" "path (h ! v) = Some p" "visited (h ! p)" "p \<noteq> v"
        "norm_edge p v (distv (h ! v)) \<in> uedges g" by blast
      then have "path (?h' ! v) = Some p \<and> visited (?h' ! p) \<and> p \<noteq> v
              \<and> norm_edge p v (distv (?h' ! v)) \<in> uedges g"
        using vd v(1) by (simp add: hv hd hp)
      with p(1) show "\<exists>p < ?n. path (?h' ! v) = Some p \<and> visited (?h' ! p) \<and> p \<noteq> v
              \<and> norm_edge p v (distv (?h' ! v)) \<in> uedges g" by blast
    qed
    moreover have "relaxed h ?h'"
      unfolding relaxed_def
    proof (intro conjI allI impI)
      show "length ?h' = length h" by simp
      fix v assume v: "v < length h"
      then show "visited (?h' ! v) = visited (h ! v)" by (simp add: nth_upd)
      show "distv (?h' ! v) \<le> distv (h ! v)" using v lt by (auto simp: nth_upd)
      assume "visited (h ! v)"
      with nv have "v \<noteq> ?d" by auto
      then show "?h' ! v = h ! v" by simp
    qed
    moreover have "settled e (?h', ?q')"
      using dl by (simp add: settled_def)
    ultimately show ?thesis by (simp add: hq r)
  qed
  from goal show "prim_struct g {c} (prim_relax c e s)"
    and "relaxed (fst s) (fst (prim_relax c e s))"
    and "settled e (prim_relax c e s)" by simp_all
qed

lemma settled_relax:
  assumes y: "settled y s" and d: "dest e < length (fst s)"
  shows "settled y (prim_relax c e s)"
proof -
  obtain h q where hq: "s = (h, q)" by (cases s)
  let ?h' = "h[dest e := (h ! dest e)\<lparr>distv := weight e, path := Some c\<rparr>]"
  from prim_relax_cases2 [of h e c q] show ?thesis
  proof
    assume "(visited (h ! dest e) \<or> distv (h ! dest e) \<le> weight e) \<and> prim_relax c e (h, q) = (h, q)"
    with y hq show ?thesis by simp
  next
    assume a: "\<not> visited (h ! dest e) \<and> weight e < distv (h ! dest e)
      \<and> prim_relax c e (h, q) =
          (?h', if distv (h ! dest e) = INF_dbl then q @ [dest e] else q)"
    have "\<not> visited (?h' ! dest y) \<longrightarrow> distv (?h' ! dest y) \<le> weight y"
    proof (cases "dest y = dest e")
      case True
      from y hq a True have "distv (h ! dest e) \<le> weight y" by (simp add: settled_def)
      with a True d hq show ?thesis by simp
    next
      case False
      then have "?h' ! dest y = h ! dest y" by simp
      with y hq show ?thesis by (simp add: settled_def)
    qed
    with a hq show ?thesis by (simp add: settled_def)
  qed
qed


lemma wf_bidir_sym:
  assumes wf: "wf_bidir g" and u: "u < length g" and e: "e \<in> set (adj (g ! u))"
  shows "\<exists>e' \<in> set (adj (g ! dest e)). dest e' = u \<and> weight e' = weight e"
proof -
  from e obtain k where k: "k < length (adj (g ! u))" "e = adj (g ! u) ! k"
    by (metis in_set_conv_nth)
  then have v: "valid_eref g (u, k)" and te: "the_edge g (u, k) = e"
    using u by (simp_all add: valid_eref_def the_edge_def)
  from wf_bidir_edge(3) [OF wf v] te obtain r where
    r: "valid_eref g r" "orig (the_edge g r) = dest e" "dest (the_edge g r) = u"
       "weight (the_edge g r) = weight e"
    by auto
  from wf_bidir_edge(1) [OF wf r(1)] r(2) have "fst r = dest e" by simp
  with r(1) have "the_edge g r \<in> set (adj (g ! dest e))"
    by (auto simp: valid_eref_def the_edge_def)
  with r(3,4) show ?thesis by blast
qed

lemma uedges_I:
  assumes "u < length g" "e \<in> set (adj (g ! u))" "u \<noteq> dest e"
  shows "norm_edge u (dest e) (weight e) \<in> uedges g"
  using assms unfolding uedges_def by blast

lemma norm_edge_ends:
  "fst (norm_edge u v w) = u \<and> fst (snd (norm_edge u v w)) = v
   \<or> fst (norm_edge u v w) = v \<and> fst (snd (norm_edge u v w)) = u"
  by (simp add: norm_edge_def)

lemma tree_of_inside:
  assumes s: "prim_struct g X (h, q)" and a: "a \<in> tree_of h"
  shows "fst a \<in> vis h \<and> fst (snd a) \<in> vis h"
proof -
  note D = prim_structD [OF s]
  from a obtain v p where v: "v \<in> vis h" "path (h ! v) = Some p" "a = norm_edge p v (distv (h ! v))"
    unfolding tree_of_def by blast
  from v(1) have vl: "v < length g" "visited (h ! v)" using D(2) by (simp_all add: vis_def)
  have "v \<noteq> 0"
  proof
    assume "v = 0"
    with v(2) D(4) show False by simp
  qed
  from D(10) [OF vl this] v(2) have "p < length g" "visited (h ! p)" by auto
  then have "p \<in> vis h" using D(2) by (simp add: vis_def)
  with v(1,3) norm_edge_ends [of p v "distv (h ! v)"] show ?thesis by auto
qed

lemma tree_of_finite: "finite (tree_of h)"
proof -
  have "tree_of h \<subseteq> (\<lambda>v. norm_edge (the (path (h ! v))) v (distv (h ! v))) ` {..<length h}"
  proof
    fix a assume "a \<in> tree_of h"
    then obtain v p where v: "v \<in> vis h" "path (h ! v) = Some p" "a = norm_edge p v (distv (h ! v))"
      unfolding tree_of_def by blast
    then have "a = (\<lambda>v. norm_edge (the (path (h ! v))) v (distv (h ! v))) v" "v \<in> {..<length h}"
      by (simp_all add: vis_def)
    then show "a \<in> (\<lambda>v. norm_edge (the (path (h ! v))) v (distv (h ! v))) ` {..<length h}"
      by (rule image_eqI)
  qed
  then show ?thesis by (rule finite_subset) simp
qed

lemma vis_visit:
  assumes "c < length h"
  shows "vis (h[c := (h ! c)\<lparr>visited := True\<rparr>]) = insert c (vis h)"
  using assms by (auto simp: vis_def nth_upd split: if_splits)

lemma tree_of_visit:
  assumes c: "c < length h" "\<not> visited (h ! c)" "path (h ! c) = Some p"
  shows "tree_of (h[c := (h ! c)\<lparr>visited := True\<rparr>]) = insert (norm_edge p c (distv (h ! c))) (tree_of h)"
proof -
  let ?h1 = "h[c := (h ! c)\<lparr>visited := True\<rparr>]"
  have f: "path (?h1 ! v) = path (h ! v)" "distv (?h1 ! v) = distv (h ! v)" if "v < length h" for v
    using that by (simp_all add: nth_upd)
  have vl: "v \<in> insert c (vis h) \<Longrightarrow> v < length h" for v
    using c(1) by (auto simp: vis_def)
  have "tree_of ?h1 = {norm_edge p' v (distv (h ! v)) | v p'. v \<in> insert c (vis h) \<and> path (h ! v) = Some p'}"
    unfolding tree_of_def vis_visit [OF c(1)] using f vl by (metis (no_types, lifting))
  also have "\<dots> = insert (norm_edge p c (distv (h ! c))) (tree_of h)"
    unfolding tree_of_def using c(3) by auto
  finally show ?thesis .
qed

lemma extractMin_snd: "snd (extractMin h q) = remove1 (fst (extractMin h q)) q"
  by (simp add: extractMin_def Let_def)

text \<open>
  Visiting the vertex that \<open>extractMin\<close> returns: its edge from its parent is a lightest
  edge from the visited vertices to the others, so the tree stays part of a minimum
  spanning tree.
\<close>

lemma prim_visit:
  assumes wf: "wf_bidir g" and s: "prim_struct g {} (h, q)" and t: "prim_tree_ok g h" and ne: "q \<noteq> []"
  defines "c \<equiv> fst (extractMin h q)"
  defines "h1 \<equiv> h[c := (h ! c)\<lparr>visited := True\<rparr>]"
  shows "prim_struct g {c} (h1, snd (extractMin h q))" and "prim_tree_ok g h1"
    and "c < length g" and "visited (h1 ! c)"
proof -
  note D = prim_structD [OF s]
  let ?n = "length g"
  from wf have wfg: "wf_graph g" by (simp add: wf_bidir_def)
  note X = extractMin_in [OF ne, of h, folded c_def]
  have mem: "v \<in> set q \<longleftrightarrow> v < ?n \<and> \<not> visited (h ! v) \<and> distv (h ! v) < INF_dbl" for v
    unfolding D(6) by simp
  from X(1) have c: "c < ?n" "\<not> visited (h ! c)" "distv (h ! c) < INF_dbl"
    unfolding mem by simp_all
  from D(8) [OF c] obtain p e0 where
    p: "p < ?n" "path (h ! c) = Some p" "visited (h ! p)"
       "e0 \<in> set (adj (g ! p))" "dest e0 = c" "weight e0 = distv (h ! c)"
    by blast
  have pc: "p \<noteq> c"
  proof
    assume "p = c" with p(3) c(2) show False by simp
  qed
  have c0: "c \<noteq> 0"
  proof
    assume "c = 0" with D(3) c(2) show False by simp
  qed
  let ?w = "distv (h ! c)"
  let ?new = "norm_edge p c ?w"
  have new: "?new \<in> uedges g"
    using uedges_I [OF p(1,4)] pc p(5,6) by simp
  have cl: "c < length h" using c(1) D(2) by simp
  have hv: "visited (h1 ! v) = (v = c \<or> visited (h ! v))" if "v < ?n" for v
    using that D(2) by (auto simp: h1_def nth_upd)
  have hd: "distv (h1 ! v) = distv (h ! v)" "path (h1 ! v) = path (h ! v)" if "v < ?n" for v
    using that D(2) by (simp_all add: h1_def nth_upd)
  show "c < ?n" by (rule c(1))
  show "visited (h1 ! c)" using c(1) by (simp add: hv)
  show "prim_struct g {c} (h1, snd (extractMin h q))"
  proof (rule prim_structI)
    have "map prim_reset h1 = map prim_reset h"
      unfolding h1_def using cl by (intro map_update_same) (simp_all add: prim_reset_def)
    with D(1) show "map prim_reset h1 = map prim_reset g" by simp
    have n0: "0 < ?n" using c(1) by (cases g) simp_all
    show "visited (h1 ! 0)" using D(3) by (simp add: hv [OF n0])
    show "path (h1 ! 0) = None" using D(4) by (simp add: hd [OF n0])
    show "distinct (snd (extractMin h q))"
      unfolding extractMin_snd using D(5) by simp
    show "set (snd (extractMin h q)) = {v. v < ?n \<and> \<not> visited (h1 ! v) \<and> distv (h1 ! v) < INF_dbl}"
    proof (rule set_eqI)
      fix v
      have "v \<in> set (snd (extractMin h q)) \<longleftrightarrow> v \<in> set q \<and> v \<noteq> c"
        unfolding extractMin_snd c_def [symmetric] using D(5) by auto
      moreover have "v < ?n \<Longrightarrow> (\<not> visited (h1 ! v)) = (v \<noteq> c \<and> \<not> visited (h ! v))"
        by (simp add: hv)
      moreover have "v < ?n \<Longrightarrow> distv (h1 ! v) = distv (h ! v)" by (simp add: hd)
      ultimately show "v \<in> set (snd (extractMin h q))
          \<longleftrightarrow> v \<in> {v. v < ?n \<and> \<not> visited (h1 ! v) \<and> distv (h1 ! v) < INF_dbl}"
        unfolding mem by auto
    qed
  next
    fix v assume "v < ?n"
    then show "distv (h1 ! v) \<le> INF_dbl" using D(7) [of v] by (simp add: hd)
  next
    fix v assume v: "v < ?n" "\<not> visited (h1 ! v)" "distv (h1 ! v) < INF_dbl"
    then have "\<not> visited (h ! v)" "distv (h ! v) < INF_dbl" by (simp_all add: hv hd)
    from D(8) [OF v(1) this] obtain p' where
      "p' < ?n" "path (h ! v) = Some p'" "visited (h ! p')"
      "\<exists>e \<in> set (adj (g ! p')). dest e = v \<and> weight e = distv (h ! v)" by blast
    then have "path (h1 ! v) = Some p' \<and> visited (h1 ! p')
              \<and> (\<exists>e \<in> set (adj (g ! p')). dest e = v \<and> weight e = distv (h1 ! v))"
      using v(1) by (simp add: hv hd)
    with \<open>p' < ?n\<close> show "\<exists>p < ?n. path (h1 ! v) = Some p \<and> visited (h1 ! p)
              \<and> (\<exists>e \<in> set (adj (g ! p)). dest e = v \<and> weight e = distv (h1 ! v))" by blast
  next
    fix p' e assume a: "p' < ?n" "visited (h1 ! p')" "p' \<notin> {c}" "e \<in> set (adj (g ! p'))"
      "\<not> visited (h1 ! dest e)"
    from wfg a(1,4) have dl: "dest e < ?n" by (auto simp: wf_graph_def)
    from a dl have "visited (h ! p')" "\<not> visited (h ! dest e)" by (simp_all add: hv)
    from D(9) [OF a(1) this(1) _ a(4) this(2)] show "distv (h1 ! dest e) \<le> weight e"
      using dl by (simp add: hd)
  next
    fix v assume v: "v < ?n" "visited (h1 ! v)" "v \<noteq> 0"
    show "\<exists>p < ?n. path (h1 ! v) = Some p \<and> visited (h1 ! p) \<and> p \<noteq> v
              \<and> norm_edge p v (distv (h1 ! v)) \<in> uedges g"
    proof (cases "v = c")
      case True
      have "path (h1 ! v) = Some p \<and> visited (h1 ! p) \<and> p \<noteq> v
              \<and> norm_edge p v (distv (h1 ! v)) \<in> uedges g"
        using True p(1,2,3) pc new c(1) by (simp add: hv hd)
      with p(1) show ?thesis by blast
    next
      case False
      with v have "visited (h ! v)" by (simp add: hv)
      from D(10) [OF v(1) this v(3)] obtain p' where
        "p' < ?n" "path (h ! v) = Some p'" "visited (h ! p')" "p' \<noteq> v"
        "norm_edge p' v (distv (h ! v)) \<in> uedges g" by blast
      then have "path (h1 ! v) = Some p' \<and> visited (h1 ! p') \<and> p' \<noteq> v
              \<and> norm_edge p' v (distv (h1 ! v)) \<in> uedges g"
        using v(1) by (simp add: hv hd)
      with \<open>p' < ?n\<close> show ?thesis by blast
    qed
  qed
  \<comment> \<open>the tree\<close>
  from t have T: "extendable g (tree_of h)" "card (tree_of h) + 1 = card (vis h)"
    "tree_weight (tree_of h) = (\<Sum>v \<in> vis h - {0}. distv (h ! v))"
    "\<forall>v \<in> vis h. (0, v) \<in> (links (tree_of h))\<^sup>*"
    by (simp_all add: prim_tree_ok_def)
  have v1: "vis h1 = insert c (vis h)"
    unfolding h1_def by (rule vis_visit [OF cl])
  have t1: "tree_of h1 = insert ?new (tree_of h)"
    unfolding h1_def by (rule tree_of_visit [OF cl c(2) p(2)])
  have cv: "c \<notin> vis h" using c(2) by (simp add: vis_def)
  have pv: "p \<in> vis h" using p(1,3) D(2) by (simp add: vis_def)
  have inside: "\<forall>a \<in> tree_of h. \<not> crosses (vis h) a"
    using tree_of_inside [OF s] by (simp add: crosses_def)
  have nn: "?new \<notin> tree_of h"
  proof
    assume "?new \<in> tree_of h"
    from tree_of_inside [OF s this] norm_edge_ends [of p c ?w] cv show False by auto
  qed
  have light: "?w \<le> weight e" if u: "u < ?n" "visited (h ! u)" and e: "e \<in> set (adj (g ! u))"
    and nv: "\<not> visited (h ! dest e)" for u e
  proof -
    from wfg u(1) e have dl: "dest e < ?n" by (auto simp: wf_graph_def)
    from D(9) [OF u _ e nv] have 1: "distv (h ! dest e) \<le> weight e" by simp
    have "?w \<le> distv (h ! dest e)"
    proof (cases "distv (h ! dest e) < INF_dbl")
      case True
      with dl nv have "dest e \<in> set q" unfolding mem by simp
      with X(4) show ?thesis by simp
    next
      case False
      with c(3) show ?thesis by simp
    qed
    with 1 show ?thesis by simp
  qed
  have least: "\<forall>f \<in> uedges g. crosses (vis h) f \<longrightarrow> ?w \<le> snd (snd f)"
  proof (intro ballI impI)
    fix f assume "f \<in> uedges g" and cr: "crosses (vis h) f"
    then obtain u e where f: "f = norm_edge u (dest e) (weight e)" "u < ?n" "e \<in> set (adj (g ! u))"
      unfolding uedges_def by blast
    from wfg f(2,3) have dl: "dest e < ?n" by (auto simp: wf_graph_def)
    from cr f(1) have x: "(u \<in> vis h) \<noteq> (dest e \<in> vis h)"
      by (simp add: crosses_norm_edge)
    have "?w \<le> weight e"
    proof (cases "u \<in> vis h")
      case True
      with x f(2) dl D(2) have "visited (h ! u)" "\<not> visited (h ! dest e)"
        by (simp_all add: vis_def)
      from light [OF f(2) this(1) f(3) this(2)] show ?thesis .
    next
      case False
      with x f(2) dl D(2) have a: "visited (h ! dest e)" "\<not> visited (h ! u)"
        by (simp_all add: vis_def)
      from wf_bidir_sym [OF wf f(2,3)] obtain e' where
        e': "e' \<in> set (adj (g ! dest e))" "dest e' = u" "weight e' = weight e" by blast
      from light [OF dl a(1) e'(1)] a(2) e'(2,3) show ?thesis by simp
    qed
    with f(1) show "?w \<le> snd (snd f)" by simp
  qed
  have ex: "extendable g (insert ?new (tree_of h))"
    by (rule extendable_insert [OF T(1) inside pv cv p(1) c(1) new least])
  have fin: "finite (tree_of h)" by (rule tree_of_finite)
  have card: "card (insert ?new (tree_of h)) + 1 = card (insert c (vis h))"
  proof -
    have "finite (vis h)" by (simp add: vis_def)
    with cv have "card (insert c (vis h)) = Suc (card (vis h))" by simp
    moreover from fin nn have "card (insert ?new (tree_of h)) = Suc (card (tree_of h))" by simp
    ultimately show ?thesis using T(2) by simp
  qed
  have wt: "tree_weight (insert ?new (tree_of h)) = (\<Sum>v \<in> insert c (vis h) - {0}. distv (h1 ! v))"
  proof -
    have "tree_weight (insert ?new (tree_of h)) = ?w + tree_weight (tree_of h)"
      using fin nn by (simp add: tree_weight_def)
    moreover have "insert c (vis h) - {0} = insert c (vis h - {0})" using c0 by auto
    moreover have "finite (vis h - {0})" by (simp add: vis_def)
    moreover have "c \<notin> vis h - {0}" using cv by blast
    ultimately have "(\<Sum>v \<in> insert c (vis h - {0}). distv (h1 ! v)) = distv (h1 ! c) + (\<Sum>v \<in> vis h - {0}. distv (h1 ! v))"
      by (intro sum.insert)
    moreover have "tree_weight (insert ?new (tree_of h)) = ?w + tree_weight (tree_of h)"
      using fin nn by (simp add: tree_weight_def)
    moreover have "insert c (vis h) - {0} = insert c (vis h - {0})" using c0 by auto
    moreover have "(\<Sum>v \<in> vis h - {0}. distv (h1 ! v)) = (\<Sum>v \<in> vis h - {0}. distv (h ! v))"
      using D(2) by (intro sum.cong) (simp_all add: hd vis_def)
    ultimately show ?thesis using T(3) c(1) by (simp add: hd)
  qed
  have conn: "\<forall>v \<in> insert c (vis h). (0, v) \<in> (links (insert ?new (tree_of h)))\<^sup>*"
  proof
    fix v assume v: "v \<in> insert c (vis h)"
    have m: "(links (tree_of h))\<^sup>* \<subseteq> (links (insert ?new (tree_of h)))\<^sup>*"
      by (intro rtrancl_mono links_mono) auto
    show "(0, v) \<in> (links (insert ?new (tree_of h)))\<^sup>*"
    proof (cases "v = c")
      case True
      from T(4) pv m have "(0, p) \<in> (links (insert ?new (tree_of h)))\<^sup>*" by blast
      moreover have "(p, c) \<in> links (insert ?new (tree_of h))"
        using links_norm_edge(1) [of p c ?w] links_mono [of "{?new}" "insert ?new (tree_of h)"] by auto
      ultimately show ?thesis using True by (simp add: rtrancl_into_rtrancl)
    next
      case False
      with v T(4) m show ?thesis by blast
    qed
  qed
  show "prim_tree_ok g h1"
    unfolding prim_tree_ok_def v1 t1 using ex card wt conn by simp
qed


text \<open>The loop over the edges of the vertex that has just been visited.\<close>

lemma prim_fold:
  assumes wf: "wf_graph g" and s: "prim_struct g {c} (h1, q1)" and c: "c < length g" "visited (h1 ! c)"
    and t: "prim_tree_ok g h1"
  shows "prim_struct g {} (fold (prim_relax c) (adj (g ! c)) (h1, q1))"
    and "prim_tree_ok g (fst (fold (prim_relax c) (adj (g ! c)) (h1, q1)))"
proof -
  let ?P = "\<lambda>s. prim_struct g {c} s \<and> relaxed h1 (fst s)"
  let ?s' = "fold (prim_relax c) (adj (g ! c)) (h1, q1)"
  have l1: "length h1 = length g" by (rule prim_structD(2) [OF s])
  have vc: "visited (fst s ! c)" if "relaxed h1 (fst s)" for s :: "'a graph \<times> pqueue"
    using that c l1 by (simp add: relaxed_def)
  have "?P ?s' \<and> (\<forall>e \<in> set (adj (g ! c)). settled e ?s')"
  proof (rule fold_establish [where P = ?P and Q = settled])
    show "?P (h1, q1)" using s by (simp add: relaxed_refl)
  next
    fix e and s :: "'a graph \<times> pqueue"
    assume e: "e \<in> set (adj (g ! c))" and P: "?P s"
    from P have st: "prim_struct g {c} s" and r: "relaxed h1 (fst s)" by simp_all
    note R = prim_relax_struct [OF wf st c(1) vc [OF r] e]
    from relaxed_trans [OF r R(2)] R(1,3)
    show "?P (prim_relax c e s) \<and> settled e (prim_relax c e s)" by simp
  next
    fix e y and s :: "'a graph \<times> pqueue"
    assume e: "e \<in> set (adj (g ! c))" and P: "?P s" and y: "settled y s"
    from P have "length (fst s) = length g" using l1 by (simp add: relaxed_def)
    moreover from wf c(1) e have "dest e < length g" by (auto simp: wf_graph_def)
    ultimately show "settled y (prim_relax c e s)"
      using y by (intro settled_relax) simp_all
  qed
  then have st: "prim_struct g {c} ?s'" and r: "relaxed h1 (fst ?s')"
    and se: "\<forall>e \<in> set (adj (g ! c)). settled e ?s'" by simp_all
  obtain h' q' where hq: "?s' = (h', q')" by (cases ?s')
  note D = prim_structD [OF st [unfolded hq]]
  have "prim_struct g {} (h', q')"
  proof (rule prim_structI [OF D(1) D(3) D(4) D(5) D(6) D(7) D(8)])
    fix p e assume a: "p < length g" "visited (h' ! p)" "p \<notin> {}" "e \<in> set (adj (g ! p))"
      "\<not> visited (h' ! dest e)"
    show "distv (h' ! dest e) \<le> weight e"
    proof (cases "p = c")
      case True
      with se a(4,5) hq show ?thesis by (auto simp: settled_def)
    next
      case False
      with a show ?thesis by (intro D(9) [of p e]) simp_all
    qed
  next
    fix v assume "v < length g" "visited (h' ! v)" "v \<noteq> 0"
    then show "\<exists>p < length g. path (h' ! v) = Some p \<and> visited (h' ! p) \<and> p \<noteq> v
              \<and> norm_edge p v (distv (h' ! v)) \<in> uedges g"
      by (rule D(10))
  qed
  then show "prim_struct g {} ?s'" by (simp add: hq)
  show "prim_tree_ok g (fst ?s')"
    using relaxed_tree_ok [OF r t] .
qed

lemma prim_struct_ok:
  assumes wf: "wf_graph g" and s: "prim_struct g X (h, q)"
  shows "prim_ok h q"
proof -
  note D = prim_structD [OF s]
  have "wf_graph h"
    using wf wf_graph_cong [OF reset_adj [OF D(1)]] by simp
  moreover have "\<forall>v < length h. distv (h ! v) \<le> INF_dbl"
    using D(7) D(2) by simp
  moreover have "\<forall>x \<in> set q. x < length h"
    unfolding D(6) D(2) by simp
  ultimately show ?thesis by (simp add: prim_ok_def)
qed

text \<open>A round of the loop of \<open>calculatePrim\<close>, once vertex 0 is visited.\<close>

lemma prim_step_main:
  assumes wf: "wf_bidir g" and s: "prim_struct g {} (h, q)" and t: "prim_tree_ok g h" and ne: "q \<noteq> []"
  shows "prim_struct g {} (prim_step h q)" and "prim_tree_ok g (fst (prim_step h q))"
proof -
  from wf have wfg: "wf_graph g" by (simp add: wf_bidir_def)
  let ?c = "fst (extractMin h q)"
  let ?h1 = "h[?c := (h ! ?c)\<lparr>visited := True\<rparr>]"
  note V = prim_visit [OF wf s t ne]
  note D = prim_structD [OF s]
  have a: "adj (h ! ?c) = adj (g ! ?c)"
    using reset_nth_adj [OF D(1) V(3)] .
  have st: "prim_step h q = fold (prim_relax ?c) (adj (g ! ?c)) (?h1, snd (extractMin h q))"
    using prim_step_unfold [OF prim_struct_ok [OF wfg s] ne] a by simp
  from prim_fold [OF wfg V(1) V(3) V(4) V(2)]
  show "prim_struct g {} (prim_step h q)" and "prim_tree_ok g (fst (prim_step h q))"
    unfolding st by simp_all
qed


lemma prim_start_nth:
  assumes "v < length g"
  shows "visited (prim_start g ! v) = False" and "path (prim_start g ! v) = None"
    and "distv (prim_start g ! v) = (if v = 0 then 0 else INF_dbl)"
  using assms by (auto simp: prim_start_def nth_upd prim_reset_def)

text \<open>The first round of the loop: vertex 0 is visited and its edges relaxed.\<close>

lemma prim_step_init:
  assumes wf: "wf_graph g" and ne: "g \<noteq> []"
  shows "prim_struct g {} (prim_step (prim_start g) [0])"
    and "prim_tree_ok g (fst (prim_step (prim_start g) [0]))"
proof -
  let ?h = "prim_start g"
  let ?h1 = "?h[0 := (?h ! 0)\<lparr>visited := True\<rparr>]"
  let ?n = "length g"
  from ne have n0: "0 < ?n" by simp
  have l: "length ?h = ?n" by (rule reset_length [OF prim_start_reset])
  have ex: "extractMin ?h [0] = (0, [])"
    by (simp add: extractMin_def)
  have a: "adj (?h ! 0) = adj (g ! 0)"
    using reset_nth_adj [OF prim_start_reset n0] .
  have st: "prim_step ?h [0] = fold (prim_relax 0) (adj (g ! 0)) (?h1, [])"
    using prim_step_unfold [OF prim_start_ok [OF wf ne], of ] a by (simp add: ex)
  have hv: "visited (?h1 ! v) = (v = 0)" if "v < ?n" for v
    using that l prim_start_nth(1) [OF that] by (auto simp: nth_upd)
  have hd: "distv (?h1 ! v) = (if v = 0 then 0 else INF_dbl)" "path (?h1 ! v) = None" if "v < ?n" for v
    using that l prim_start_nth(2,3) [OF that] by (auto simp: nth_upd)
  have s1: "prim_struct g {0} (?h1, [])"
  proof (rule prim_structI)
    have "map prim_reset ?h1 = map prim_reset ?h"
      using n0 l by (intro map_update_same) (simp_all add: prim_reset_def)
    then show "map prim_reset ?h1 = map prim_reset g" by (simp add: prim_start_reset)
    show "visited (?h1 ! 0)" "path (?h1 ! 0) = None" using n0 by (simp_all add: hv hd)
    show "distinct ([] :: nat list)" by simp
    have "\<not> (v < ?n \<and> \<not> visited (?h1 ! v) \<and> distv (?h1 ! v) < INF_dbl)" for v
    proof
      assume v: "v < ?n \<and> \<not> visited (?h1 ! v) \<and> distv (?h1 ! v) < INF_dbl"
      then have vn: "v < ?n" by simp
      from v show False unfolding hv [OF vn] hd(1) [OF vn] by (auto split: if_splits)
    qed
    then show "set [] = {v. v < ?n \<and> \<not> visited (?h1 ! v) \<and> distv (?h1 ! v) < INF_dbl}"
      by simp
  next
    fix v assume "v < ?n"
    then show "distv (?h1 ! v) \<le> INF_dbl" using INF_dbl_pos by (simp add: hd)
  next
    fix v assume v: "v < ?n" "\<not> visited (?h1 ! v)" "distv (?h1 ! v) < INF_dbl"
    from v(2,3) have False unfolding hv [OF v(1)] hd(1) [OF v(1)] by (auto split: if_splits)
    then show "\<exists>p < ?n. path (?h1 ! v) = Some p \<and> visited (?h1 ! p)
              \<and> (\<exists>e \<in> set (adj (g ! p)). dest e = v \<and> weight e = distv (?h1 ! v))" ..
  next
    fix p e assume p: "p < ?n" "visited (?h1 ! p)" "p \<notin> {0}"
    from p(2,3) have False unfolding hv [OF p(1)] by simp
    then show "distv (?h1 ! dest e) \<le> weight e" ..
  next
    fix v assume v: "v < ?n" "visited (?h1 ! v)" "v \<noteq> 0"
    from v(2,3) have False unfolding hv [OF v(1)] by simp
    then show "\<exists>p < ?n. path (?h1 ! v) = Some p \<and> visited (?h1 ! p) \<and> p \<noteq> v
              \<and> norm_edge p v (distv (?h1 ! v)) \<in> uedges g" ..
  qed
  have v1: "vis ?h1 = {0}"
    using n0 l by (auto simp: vis_def hv)
  have t1: "tree_of ?h1 = {}"
    unfolding tree_of_def v1 using n0 by (simp add: hd)
  have tok: "prim_tree_ok g ?h1"
    by (simp add: prim_tree_ok_def v1 t1 extendable_empty tree_weight_def)
  have vc: "visited (?h1 ! 0)" using n0 by (simp add: hv)
  from prim_fold [OF wf s1 n0 vc tok]
  show "prim_struct g {} (prim_step (prim_start g) [0])"
    and "prim_tree_ok g (fst (prim_step (prim_start g) [0]))"
    unfolding st by simp_all
qed


lemma prim_loop_mst:
  assumes wf: "wf_bidir g" and ne: "g \<noteq> []"
  shows "\<exists>g'. calculatePrim g = Some (Inr g') \<and> prim_struct g {} (g', []) \<and> prim_tree_ok g g'"
proof -
  from wf have wfg: "wf_graph g" by (simp add: wf_bidir_def)
  let ?I = "\<lambda>h q. (h = prim_start g \<and> q = [0]) \<or> (prim_struct g {} (h, q) \<and> prim_tree_ok g h)"
  have "\<exists>g'. prim_loop (prim_start g) [0] = Some g' \<and> ?I g' []"
  proof (rule prim_loop_rule [where I = ?I])
    show "?I (prim_start g) [0]" by simp
  next
    fix h q assume "?I h q"
    then show "prim_ok h q"
      using prim_start_ok [OF wfg ne] prim_struct_ok [OF wfg] by blast
  next
    fix h q assume I: "?I h q" and q: "q \<noteq> []"
    from I show "?I (fst (prim_step h q)) (snd (prim_step h q))"
    proof
      assume "h = prim_start g \<and> q = [0]"
      with prim_step_init [OF wfg ne] show ?thesis by simp
    next
      assume "prim_struct g {} (h, q) \<and> prim_tree_ok g h"
      with prim_step_main [OF wf _ _ q] show ?thesis by simp
    qed
  qed
  then show ?thesis
    using ne by (auto simp: calculatePrim_unfold)
qed

text \<open>When the queue is empty, every vertex that vertex 0 reaches has been visited.\<close>

lemma prim_all_visited:
  assumes wfg: "wf_graph g" and ne: "g \<noteq> []" and s: "prim_struct g {} (h, [])"
    and fin: "\<forall>v < length g. \<forall>e \<in> set (adj (g ! v)). weight e < INF_dbl"
    and r: "reaches g 0 v"
  shows "v < length g \<and> visited (h ! v)"
proof -
  note D = prim_structD [OF s]
  have far: "\<not> distv (h ! x) < INF_dbl" if "x < length g" "\<not> visited (h ! x)" for x
    using D(6) that by auto
  have n0: "0 < length g" using ne by simp
  from r have "(0, v) \<in> (edge_rel g)\<^sup>*" by (simp add: reaches_def)
  then show ?thesis
  proof (induction rule: rtrancl_induct)
    case base
    show ?case using n0 D(3) by simp
  next
    case (step y z)
    from step.hyps(2) obtain e where e: "y < length g" "e \<in> set (adj (g ! y))" "dest e = z"
      by (auto simp: edge_rel_def)
    from wfg e have zl: "z < length g" by (auto simp: wf_graph_def)
    have "visited (h ! z)"
    proof (rule ccontr)
      assume nv: "\<not> visited (h ! z)"
      from D(9) [OF e(1) _ _ e(2)] step.IH nv e(3) have "distv (h ! z) \<le> weight e" by simp
      moreover from fin e have "weight e < INF_dbl" by blast
      ultimately show False using far [OF zl nv] by simp
    qed
    with zl show ?case by simp
  qed
qed


text \<open>
  C1, as the code has it. On a connected graph with a vertex, built with
  \<open>addBidirectionalEdge\<close>, whose weights are all smaller than \<open>INF\<close>, \<open>calculatePrim\<close>
  returns; vertex 0 has no parent and exactly the other \<open>V - 1\<close> vertices have one; the
  edges from the parents to their children, weighted by the children's distances,
  are a minimum spanning tree of the graph; and the sum of the distances of the
  vertices other than vertex 0 is its weight.
\<close>

theorem calculatePrim_mst:
  assumes wf: "wf_bidir g" and ne: "g \<noteq> []"
    and conn: "\<forall>v < length g. reaches g 0 v"
    and fin: "\<forall>v < length g. \<forall>e \<in> set (adj (g ! v)). weight e < INF_dbl"
  shows "\<exists>g'. calculatePrim g = Some (Inr g') \<and> length g' = length g
           \<and> path (g' ! 0) = None
           \<and> card {v. v < length g \<and> path (g' ! v) \<noteq> None} = length g - 1
           \<and> is_mst g (prim_tree g')
           \<and> (\<Sum>v = 1..<length g. distv (g' ! v)) = tree_weight (prim_tree g')"
proof -
  from wf have wfg: "wf_graph g" by (simp add: wf_bidir_def)
  let ?n = "length g"
  from prim_loop_mst [OF wf ne] obtain g' where
    g': "calculatePrim g = Some (Inr g')" and s: "prim_struct g {} (g', [])" and t: "prim_tree_ok g g'"
    by blast
  note D = prim_structD [OF s]
  from t have T: "extendable g (tree_of g')" "card (tree_of g') + 1 = card (vis g')"
    "tree_weight (tree_of g') = (\<Sum>v \<in> vis g' - {0}. distv (g' ! v))"
    "\<forall>v \<in> vis g'. (0, v) \<in> (links (tree_of g'))\<^sup>*"
    by (simp_all add: prim_tree_ok_def)
  have all: "visited (g' ! v)" if "v < ?n" for v
    using prim_all_visited [OF wfg ne s fin] conn that by blast
  have vis: "vis g' = {..<?n}"
    using all D(2) by (auto simp: vis_def)
  have pt: "prim_tree g' = tree_of g'"
    unfolding prim_tree_def tree_of_def vis D(2) by simp
  have par: "path (g' ! v) \<noteq> None" if "v < ?n" "v \<noteq> 0" for v
    using D(10) [OF that(1) all [OF that(1)] that(2)] by auto
  have pset: "{v. v < ?n \<and> path (g' ! v) \<noteq> None} = {1..<?n}"
  proof (rule set_eqI)
    fix v
    show "v \<in> {v. v < ?n \<and> path (g' ! v) \<noteq> None} \<longleftrightarrow> v \<in> {1..<?n}"
    proof (cases "v = 0")
      case True
      with D(4) show ?thesis by simp
    next
      case False
      with par [of v] show ?thesis by auto
    qed
  qed
  have sub: "tree_of g' \<subseteq> uedges g"
  proof
    fix a assume "a \<in> tree_of g'"
    then obtain v p where v: "v \<in> vis g'" "path (g' ! v) = Some p" "a = norm_edge p v (distv (g' ! v))"
      unfolding tree_of_def by blast
    from v(1) have vl: "v < ?n" "visited (g' ! v)" using D(2) by (simp_all add: vis_def)
    have "v \<noteq> 0"
    proof
      assume "v = 0" with v(2) D(4) show False by simp
    qed
    from D(10) [OF vl this] v(2) have "norm_edge p v (distv (g' ! v)) \<in> uedges g" by auto
    with v(3) show "a \<in> uedges g" by simp
  qed
  have card: "card (tree_of g') = ?n - 1"
    using T(2) by (simp add: vis)
  have conn': "connects ?n (tree_of g')"
    using T(4) by (simp add: connects_def vis)
  have mst: "is_mst g (tree_of g')"
    by (rule extendable_final [OF T(1) sub card conn'])
  have "{..<?n} - {0} = {1..<?n}" by auto
  with T(3) have sum: "(\<Sum>v = 1..<?n. distv (g' ! v)) = tree_weight (tree_of g')"
    by (simp add: vis)
  from g' D(2) D(4) pset mst sum show ?thesis
    by (simp add: pt)
qed

lemma INF_dbl_gt_4: "4 < INF_dbl"
proof -
  have "(2::real) ^ 3 \<le> 2 ^ 971" by (rule power_increasing) simp_all
  moreover have "(1::real) \<le> 2 ^ 53 - 1" by simp
  ultimately have "(1::real) * 2 ^ 3 \<le> (2 ^ 53 - 1) * 2 ^ 971"
    by (intro mult_mono) simp_all
  then show ?thesis by (simp add: INF_dbl_def)
qed

lemma scenario_weights: "\<forall>v < length scenario. \<forall>e \<in> set (adj (scenario ! v)). weight e < INF_dbl"
proof -
  have "(1::real) < INF_dbl" "(2::real) < INF_dbl" "(3::real) < INF_dbl" "(4::real) < INF_dbl"
    using INF_dbl_gt_4 by simp_all
  then show ?thesis
    by (simp add: scenario_eq All_less_Suc)
qed

lemma edge_reaches:
  assumes "reaches g 0 u" "u < length g" "e \<in> set (adj (g ! u))" "dest e = v"
  shows "reaches g 0 v"
  using reaches_step [OF assms(1,2,3)] assms(4) by simp

lemma scenario_reaches:
  "reaches scenario 0 0" "reaches scenario 0 1" "reaches scenario 0 2" "reaches scenario 0 3"
proof -
  show 0: "reaches scenario 0 0" by (simp add: reaches_def)
  show "reaches scenario 0 1"
    by (rule edge_reaches [OF 0, where e = "\<lparr>orig = 0, dest = 1, weight = 1, selected = False, reverse = Some (1, 0)\<rparr>"])
       (simp_all add: scenario_eq)
  show 2: "reaches scenario 0 2"
    by (rule edge_reaches [OF 0, where e = "\<lparr>orig = 0, dest = 2, weight = 4, selected = False, reverse = Some (2, 1)\<rparr>"])
       (simp_all add: scenario_eq)
  show "reaches scenario 0 3"
    by (rule edge_reaches [OF 2, where e = "\<lparr>orig = 2, dest = 3, weight = 3, selected = False, reverse = Some (3, 0)\<rparr>"])
       (simp_all add: scenario_eq)
qed

lemma scenario_connected: "\<forall>v < length scenario. reaches scenario 0 v"
proof (intro allI impI)
  fix v assume "v < length scenario"
  moreover have "length scenario = 4" by (simp add: scenario_eq)
  ultimately have "v = 0 \<or> v = 1 \<or> v = 2 \<or> v = 3" by arith
  with scenario_reaches show "reaches scenario 0 v" by blast
qed

theorem calculatePrim_mst_witness:
  "wf_bidir scenario \<and> scenario \<noteq> []
   \<and> reaches scenario 0 1 \<and> reaches scenario 0 2 \<and> reaches scenario 0 3
   \<and> (\<exists>g'. calculatePrim scenario = Some (Inr g') \<and> length g' = length scenario
         \<and> path (g' ! 0) = None
         \<and> card {v. v < length scenario \<and> path (g' ! v) \<noteq> None} = length scenario - 1
         \<and> is_mst scenario (prim_tree g')
         \<and> (\<Sum>v = 1..<length scenario. distv (g' ! v)) = tree_weight (prim_tree g'))"
proof -
  have ne: "scenario \<noteq> []" by (simp add: scenario_eq)
  from calculatePrim_mst [OF wf_bidir_scenario ne scenario_connected scenario_weights]
    wf_bidir_scenario ne scenario_reaches
  show ?thesis by simp
qed

lemma inf_pair_eq:
  "inf_pair =
    [\<lparr>info = ''A'',
      adj = [\<lparr>orig = 0, dest = 1, weight = INF_dbl, selected = False, reverse = Some (1, 0)\<rparr>],
      visited = False, distv = 0, path = None, queueIndex = 0, idv = 0, rank = 0\<rparr>,
     \<lparr>info = ''B'',
      adj = [\<lparr>orig = 1, dest = 0, weight = INF_dbl, selected = False, reverse = Some (0, 0)\<rparr>],
      visited = False, distv = 0, path = None, queueIndex = 0, idv = 0, rank = 0\<rparr>]"
  by (simp add: inf_pair_def addVertex_def addBidirectionalEdge_def findVertex_def Vertex_def
        Vertex_addEdge_def set_reverse_def Edge_def Let_def)

text \<open>
  The claim fails for an edge as heavy as \<open>INF\<close>: the two vertices are linked, and yet
  \<open>calculatePrim\<close> gives neither of them a parent.
\<close>

theorem calculatePrim_mst_counterexample:
  "wf_bidir inf_pair \<and> length inf_pair = 2 \<and> reaches inf_pair 0 1
   \<and> map_option (map_sum id (map path)) (calculatePrim inf_pair) = Some (Inr [None, None])"
proof -
  have "wf_bidir inf_pair"
    by (simp add: wf_bidir_def wf_graph_def inf_pair_eq All_less_Suc edge_at_def)
  moreover have "length inf_pair = 2" by (simp add: inf_pair_eq)
  moreover have "reaches inf_pair 0 0" by (simp add: reaches_def)
  then have "reaches inf_pair 0 1"
    by (rule edge_reaches [where e = "\<lparr>orig = 0, dest = 1, weight = INF_dbl, selected = False, reverse = Some (1, 0)\<rparr>"])
       (simp_all add: inf_pair_eq)
  moreover have "map_option (map_sum id (map path)) (calculatePrim inf_pair) = Some (Inr [None, None])"
    by code_simp
  ultimately show ?thesis by simp
qed

section \<open>The number of representative roots after a sequence of unions\<close>

lemma make_sets_fold:
  assumes "m \<le> length g"
  shows "length (fold makeSet [0..<m] g) = length g
    \<and> (\<forall>x < length g. fold makeSet [0..<m] g ! x
          = (if x < m then (g ! x)\<lparr>path := Some x, rank := 0\<rparr> else g ! x))"
  using assms
proof (induction m)
  case 0
  then show ?case by simp
next
  case (Suc m)
  then show ?case
    by (auto simp: makeSet_def nth_upd less_Suc_eq)
qed

lemma make_sets_nth:
  shows "length (make_sets g) = length g"
    and "x < length g \<Longrightarrow> make_sets g ! x = (g ! x)\<lparr>path := Some x, rank := 0\<rparr>"
  using make_sets_fold [of "length g" g] by (simp_all add: make_sets_def)

lemma make_sets_uf_rel: "uf_rel (make_sets g) (\<lambda>x. x)"
  by (simp add: uf_rel_def make_sets_nth)

lemma is_root_iff:
  assumes u: "uf_rel h f" and x: "x < length h"
  shows "is_root h x \<longleftrightarrow> f x = x"
proof -
  from findSet_total [OF u x] obtain h' where "findSet h x = Some (Inr (f x, h'))"
    by blast
  then show ?thesis by (auto simp: is_root_def)
qed

lemma num_roots_card:
  assumes u: "uf_rel h f"
  shows "num_roots h = card {x. x < length h \<and> f x = x}"
proof -
  have "num_roots h = card {i. i < length [0..<length h] \<and> is_root h ([0..<length h] ! i)}"
    unfolding num_roots_def by (rule length_filter_conv_card)
  also have "{i. i < length [0..<length h] \<and> is_root h ([0..<length h] ! i)}
             = {x. x < length h \<and> f x = x}"
    using is_root_iff [OF u] by auto
  finally show ?thesis .
qed

lemma num_roots_make_sets: "num_roots (make_sets g) = length g"
  using num_roots_card [OF make_sets_uf_rel, of g] by (simp add: make_sets_nth)

lemma merge_into_eq_iff:
  "merge_into f i j a = merge_into f i j b
   \<longleftrightarrow> (if f a = i \<or> f a = j then f b = i \<or> f b = j else f a = f b)"
  by (auto simp: merge_into_def)

lemma merge_into_same_sets:
  assumes inv: "\<forall>a < n. \<forall>b < n. f a = f b \<longleftrightarrow> lab a = lab b"
    and x: "x < n" and y: "y < n"
    and ij: "(i = f x \<and> j = f y) \<or> (i = f y \<and> j = f x)"
    and a: "a < n" and b: "b < n"
  shows "merge_into f i j a = merge_into f i j b
         \<longleftrightarrow> merge_into lab (lab x) (lab y) a = merge_into lab (lab x) (lab y) b"
proof -
  have e: "(f a = f b) = (lab a = lab b)" "(f a = f x) = (lab a = lab x)"
    "(f a = f y) = (lab a = lab y)" "(f b = f x) = (lab b = lab x)"
    "(f b = f y) = (lab b = lab y)"
    using inv a b x y by simp_all
  have "merge_into f i j a = merge_into f i j b
        \<longleftrightarrow> (if f a = f x \<or> f a = f y then f b = f x \<or> f b = f y else f a = f b)"
  proof (rule disjE [OF ij])
    assume "i = f x \<and> j = f y"
    then have "i = f x" "j = f y" by simp_all
    then show ?thesis by (simp only: merge_into_eq_iff)
  next
    assume "i = f y \<and> j = f x"
    then have "i = f y" "j = f x" by simp_all
    then show ?thesis by (simp only: merge_into_eq_iff disj_commute)
  qed
  also have "\<dots> \<longleftrightarrow> (if lab a = lab x \<or> lab a = lab y then lab b = lab x \<or> lab b = lab y
                        else lab a = lab b)"
    by (simp only: e)
  also have "\<dots> \<longleftrightarrow> merge_into lab (lab x) (lab y) a = merge_into lab (lab x) (lab y) b"
    by (simp only: merge_into_eq_iff)
  finally show ?thesis .
qed

lemma linkSets_roots:
  assumes u: "uf_rel h f" and x: "x < length h" and y: "y < length h" and ne: "f x \<noteq> f y"
  shows "\<exists>g' i j. linkSets x y h = Some (Inr g') \<and> uf_rel g' (merge_into f i j)
            \<and> ((i = f x \<and> j = f y) \<or> (i = f y \<and> j = f x))
            \<and> length g' = length h \<and> num_roots g' + 1 = num_roots h"
proof -
  from linkSets_total [OF u x y ne] obtain g2 g' where
    L: "linkSets x y h = Some (Inr g')" "map uf_erase g' = map uf_erase h"
    and L0: "if rank (g2 ! f x) > rank (g2 ! f y)
               then g' = g2[f y := (g2 ! f y)\<lparr>path := Some (f x)\<rparr>]
                    \<and> uf_rel g' (merge_into f (f y) (f x))
               else g' = g2[f x := (g2 ! f x)\<lparr>path := Some (f y)\<rparr>,
                            f y := (g2 ! f y)\<lparr>rank := (if rank (g2 ! f x) = rank (g2 ! f y)
                                                       then rank (g2 ! f y) + 1 else rank (g2 ! f y))\<rparr>]
                    \<and> uf_rel g' (merge_into f (f x) (f y))"
    by blast
  from L(2) have l: "length g' = length h" by (metis length_map)
  have i: "f x < length h" "f y < length h"
    using uf_relD(1) [OF u] x y by auto
  have id: "f (f x) = f x" "f (f y) = f y"
    using uf_rel_idem [OF u] x y by auto
  have c0: "card {z. z < length h \<and> f z = z} + 0 = num_roots h"
    using num_roots_card [OF u] by simp
  obtain i j where ij: "uf_rel g' (merge_into f i j)" "i < length h" "f i = i" "f j = j" "i \<noteq> j"
    and ij': "(i = f x \<and> j = f y) \<or> (i = f y \<and> j = f x)"
  proof (cases "rank (g2 ! f x) > rank (g2 ! f y)")
    case True
    from L0 [unfolded if_P [OF True]] have "uf_rel g' (merge_into f (f y) (f x))"
      by (rule conjunct2)
    then show ?thesis using that [of "f y" "f x"] i id ne by simp
  next
    case False
    from L0 [unfolded if_not_P [OF False]] have "uf_rel g' (merge_into f (f x) (f y))"
      by (rule conjunct2)
    then show ?thesis using that [of "f x" "f y"] i id ne by simp
  qed
  from roots_card_join [OF u ij(2-5) c0]
  have "card {z. z < length h \<and> merge_into f i j z = z} + 1 = num_roots h" by simp
  then have "num_roots g' + 1 = num_roots h"
    using num_roots_card [OF ij(1)] l by simp
  with L(1) ij(1) ij' l show ?thesis by blast
qed

lemma unions_roots:
  assumes "uf_rel h f" and "\<forall>a < length h. \<forall>b < length h. f a = f b \<longleftrightarrow> lab a = lab b"
    and "\<forall>xy \<in> set ops. fst xy < length h \<and> snd xy < length h"
    and "acyclic_unions ops lab"
  shows "joining ops h
         \<and> (\<exists>g'. unions ops h = Some (Inr g') \<and> length g' = length h
               \<and> num_roots g' + length ops = num_roots h)"
  using assms
proof (induction ops arbitrary: h f lab)
  case Nil
  then show ?case by simp
next
  case (Cons xy ops)
  obtain x y where xy: "xy = (x, y)" by (cases xy)
  note u = Cons.prems(1) and inv = Cons.prems(2)
  from Cons.prems(3) xy have x: "x < length h" and y: "y < length h"
    and r: "\<forall>xy \<in> set ops. fst xy < length h \<and> snd xy < length h" by simp_all
  from Cons.prems(4) xy have lne: "lab x \<noteq> lab y"
    and ac: "acyclic_unions ops (merge_into lab (lab x) (lab y))" by simp_all
  from inv x y lne have ne: "f x \<noteq> f y" by simp
  from findSet_total [OF u x] obtain h1 where h1: "findSet h x = Some (Inr (f x, h1))"
    by blast
  from findSet_total [OF u y] obtain h2 where h2: "findSet h y = Some (Inr (f y, h2))"
    by blast
  from linkSets_roots [OF u x y ne] obtain g1 i j where
    g1: "linkSets x y h = Some (Inr g1)" "uf_rel g1 (merge_into f i j)"
        "(i = f x \<and> j = f y) \<or> (i = f y \<and> j = f x)"
        "length g1 = length h" "num_roots g1 + 1 = num_roots h"
    by blast
  have inv1: "\<forall>a < length g1. \<forall>b < length g1.
                merge_into f i j a = merge_into f i j b
                \<longleftrightarrow> merge_into lab (lab x) (lab y) a = merge_into lab (lab x) (lab y) b"
    using merge_into_same_sets [OF inv x y g1(3)] g1(4) by simp
  from r g1(4) have r1: "\<forall>xy \<in> set ops. fst xy < length g1 \<and> snd xy < length g1" by simp
  from Cons.IH [OF g1(2) inv1 r1 ac] obtain g' where
    j: "joining ops g1" and
    g': "unions ops g1 = Some (Inr g')" "length g' = length g1"
    "num_roots g' + length ops = num_roots g1"
    by blast
  have "joining (xy # ops) h"
    using j ne by (simp add: xy h1 h2 g1(1))
  moreover have "unions (xy # ops) h = Some (Inr g')"
    using g'(1) by (simp add: xy g1(1) bind_res_def)
  moreover have "num_roots g' + length (xy # ops) = num_roots h"
    using g'(3) g1(5) by simp
  ultimately show ?case using g'(2) g1(4) by simp
qed

text \<open>
  C8. Start from \<open>V\<close> singleton sets (\<open>makeSet\<close> on each of the \<open>V\<close> vertices) and run any
  sequence of \<open>k\<close> union operations (\<open>linkSets\<close>) without cycles, that is, each on two
  vertices that the unions before it have not put into one set. Then every union finds
  its two vertices in distinct sets (\<open>findSet\<close> gives them different representatives),
  the sequence runs to its end without an error, and the structure then has exactly
  \<open>V - k\<close> representative roots, that is, exactly \<open>V - k\<close> vertices \<open>x\<close> with
  \<open>findSet(x) = x\<close>. In any disjoint-set forest, \<open>linkSets\<close> on vertices of two distinct
  sets leaves exactly one representative root fewer; it puts the root of smaller rank
  under the root of larger rank and leaves the ranks alone, and on equal ranks it puts
  the root of the first under the root of the second, whose rank grows by one.
\<close>

theorem disjoint_sets_roots:
  fixes g :: "'a graph"
  assumes ops: "\<forall>xy \<in> set ops. fst xy < length g \<and> snd xy < length g"
    and ac: "acyclic_unions ops (\<lambda>x. x)"
  shows "(joining ops (make_sets g)
          \<and> (\<exists>g'. unions ops (make_sets g) = Some (Inr g') \<and> length g' = length g
                \<and> length ops \<le> length g \<and> num_roots g' = length g - length ops))
       \<and> (\<forall>(h :: 'a graph) f x y. uf_rel h f \<and> x < length h \<and> y < length h \<and> f x \<noteq> f y \<longrightarrow>
            (\<exists>h1 h2 g'. findSet h x = Some (Inr (f x, h1)) \<and> findSet h y = Some (Inr (f y, h2))
               \<and> linkSets x y h = Some (Inr g')
               \<and> length g' = length h \<and> num_roots g' + 1 = num_roots h
               \<and> (rank (h ! f y) < rank (h ! f x) \<longrightarrow>
                    path (g' ! f y) = Some (f x) \<and> path (g' ! f x) = Some (f x)
                    \<and> rank (g' ! f x) = rank (h ! f x) \<and> rank (g' ! f y) = rank (h ! f y))
               \<and> (rank (h ! f x) < rank (h ! f y) \<longrightarrow>
                    path (g' ! f x) = Some (f y) \<and> path (g' ! f y) = Some (f y)
                    \<and> rank (g' ! f x) = rank (h ! f x) \<and> rank (g' ! f y) = rank (h ! f y))
               \<and> (rank (h ! f x) = rank (h ! f y) \<longrightarrow>
                    path (g' ! f x) = Some (f y) \<and> path (g' ! f y) = Some (f y)
                    \<and> rank (g' ! f x) = rank (h ! f x) \<and> rank (g' ! f y) = rank (h ! f y) + 1)))"
proof (intro conjI allI impI)
  from ops have ops': "\<forall>xy \<in> set ops. fst xy < length (make_sets g) \<and> snd xy < length (make_sets g)"
    by (simp add: make_sets_nth)
  have inv: "\<forall>a < length (make_sets g). \<forall>b < length (make_sets g). (\<lambda>x. x) a = (\<lambda>x. x) b \<longleftrightarrow> (\<lambda>x. x) a = (\<lambda>x. x) b"
    by simp
  note R = unions_roots [OF make_sets_uf_rel inv ops' ac]
  from R show "joining ops (make_sets g)" by (rule conjunct1)
  from R obtain g' where
    "unions ops (make_sets g) = Some (Inr g')" "length g' = length (make_sets g)"
    "num_roots g' + length ops = num_roots (make_sets g)"
    by blast
  then show "\<exists>g'. unions ops (make_sets g) = Some (Inr g') \<and> length g' = length g
            \<and> length ops \<le> length g \<and> num_roots g' = length g - length ops"
    by (simp add: num_roots_make_sets make_sets_nth)
next
  fix h :: "'a graph" and f x y
  assume a: "uf_rel h f \<and> x < length h \<and> y < length h \<and> f x \<noteq> f y"
  then have u: "uf_rel h f" and x: "x < length h" and y: "y < length h" and ne: "f x \<noteq> f y"
    by simp_all
  from findSet_total [OF u x] obtain h1 where h1: "findSet h x = Some (Inr (f x, h1))" by blast
  from findSet_total [OF u y] obtain h2 where h2: "findSet h y = Some (Inr (f y, h2))" by blast
  from linkSets_total [OF u x y ne] obtain g2 g' where
    L: "linkSets x y h = Some (Inr g')" "uf_rel g2 f" "map uf_erase g2 = map uf_erase h"
       "map rank g2 = map rank h"
    and L0: "if rank (g2 ! f x) > rank (g2 ! f y)
               then g' = g2[f y := (g2 ! f y)\<lparr>path := Some (f x)\<rparr>]
                    \<and> uf_rel g' (merge_into f (f y) (f x))
               else g' = g2[f x := (g2 ! f x)\<lparr>path := Some (f y)\<rparr>,
                            f y := (g2 ! f y)\<lparr>rank := (if rank (g2 ! f x) = rank (g2 ! f y)
                                                       then rank (g2 ! f y) + 1 else rank (g2 ! f y))\<rparr>]
                    \<and> uf_rel g' (merge_into f (f x) (f y))"
    by blast
  from linkSets_roots [OF u x y ne] L(1)
  have cnt: "length g' = length h \<and> num_roots g' + 1 = num_roots h" by auto
  have L5: "rank (g2 ! f x) > rank (g2 ! f y) \<Longrightarrow> g' = g2[f y := (g2 ! f y)\<lparr>path := Some (f x)\<rparr>]"
    and L6: "\<not> rank (g2 ! f x) > rank (g2 ! f y) \<Longrightarrow>
          g' = g2[f x := (g2 ! f x)\<lparr>path := Some (f y)\<rparr>,
                  f y := (g2 ! f y)\<lparr>rank := (if rank (g2 ! f x) = rank (g2 ! f y)
                                             then rank (g2 ! f y) + 1 else rank (g2 ! f y))\<rparr>]"
    using L0 by (simp_all only: if_True if_False)
  from L(4) have l2: "length g2 = length h" by (metis length_map)
  have i: "f x < length h" and j: "f y < length h"
    using uf_relD(1) [OF u] x y by auto
  have rk: "rank (g2 ! f x) = rank (h ! f x)" "rank (g2 ! f y) = rank (h ! f y)"
    using L(4) i j l2 by (metis nth_map)+
  have pt: "path (g2 ! f x) = Some (f x)" "path (g2 ! f y) = Some (f y)"
    using uf_relD(2) [OF L(2)] x y l2 by auto
  have gt: "path (g' ! f y) = Some (f x) \<and> path (g' ! f x) = Some (f x)
            \<and> rank (g' ! f x) = rank (h ! f x) \<and> rank (g' ! f y) = rank (h ! f y)"
    if c: "rank (h ! f y) < rank (h ! f x)"
  proof -
    from L5 c rk have "g' = g2[f y := (g2 ! f y)\<lparr>path := Some (f x)\<rparr>]" by simp
    then show ?thesis
      using rk pt i j l2 ne by (simp add: nth_upd)
  qed
  have le: "path (g' ! f x) = Some (f y) \<and> path (g' ! f y) = Some (f y)
            \<and> rank (g' ! f x) = rank (h ! f x)
            \<and> rank (g' ! f y) = (if rank (h ! f x) = rank (h ! f y) then rank (h ! f y) + 1 else rank (h ! f y))"
    if c: "rank (h ! f x) \<le> rank (h ! f y)"
  proof -
    from L6 c rk have "g' = g2[f x := (g2 ! f x)\<lparr>path := Some (f y)\<rparr>,
                            f y := (g2 ! f y)\<lparr>rank := (if rank (g2 ! f x) = rank (g2 ! f y)
                                                       then rank (g2 ! f y) + 1 else rank (g2 ! f y))\<rparr>]"
      by simp
    then show ?thesis
      using rk pt i j l2 ne by (simp add: nth_upd)
  qed
  have "(rank (h ! f y) < rank (h ! f x) \<longrightarrow>
                    path (g' ! f y) = Some (f x) \<and> path (g' ! f x) = Some (f x)
                    \<and> rank (g' ! f x) = rank (h ! f x) \<and> rank (g' ! f y) = rank (h ! f y))
               \<and> (rank (h ! f x) < rank (h ! f y) \<longrightarrow>
                    path (g' ! f x) = Some (f y) \<and> path (g' ! f y) = Some (f y)
                    \<and> rank (g' ! f x) = rank (h ! f x) \<and> rank (g' ! f y) = rank (h ! f y))
               \<and> (rank (h ! f x) = rank (h ! f y) \<longrightarrow>
                    path (g' ! f x) = Some (f y) \<and> path (g' ! f y) = Some (f y)
                    \<and> rank (g' ! f x) = rank (h ! f x) \<and> rank (g' ! f y) = rank (h ! f y) + 1)"
    using gt le by simp
  with h1 h2 L(1) cnt
  show "\<exists>h1 h2 g'. findSet h x = Some (Inr (f x, h1)) \<and> findSet h y = Some (Inr (f y, h2))
               \<and> linkSets x y h = Some (Inr g')
               \<and> length g' = length h \<and> num_roots g' + 1 = num_roots h
               \<and> (rank (h ! f y) < rank (h ! f x) \<longrightarrow>
                    path (g' ! f y) = Some (f x) \<and> path (g' ! f x) = Some (f x)
                    \<and> rank (g' ! f x) = rank (h ! f x) \<and> rank (g' ! f y) = rank (h ! f y))
               \<and> (rank (h ! f x) < rank (h ! f y) \<longrightarrow>
                    path (g' ! f x) = Some (f y) \<and> path (g' ! f y) = Some (f y)
                    \<and> rank (g' ! f x) = rank (h ! f x) \<and> rank (g' ! f y) = rank (h ! f y))
               \<and> (rank (h ! f x) = rank (h ! f y) \<longrightarrow>
                    path (g' ! f x) = Some (f y) \<and> path (g' ! f y) = Some (f y)
                    \<and> rank (g' ! f x) = rank (h ! f x) \<and> rank (g' ! f y) = rank (h ! f y) + 1)"
    by blast
qed

theorem disjoint_sets_roots_witness:
  "acyclic_unions [(0, 1), (2, 3), (1, 3)] (\<lambda>x. x) \<and> length scenario = 4
   \<and> joining [(0, 1), (2, 3), (1, 3)] (make_sets scenario)
   \<and> (\<exists>g'. unions [(0, 1), (2, 3), (1, 3)] (make_sets scenario) = Some (Inr g') \<and> num_roots g' = 1)
   \<and> num_roots (make_sets scenario) = 4
   \<and> (\<exists>g'. linkSets 0 1 (make_sets scenario) = Some (Inr g') \<and> num_roots g' = 3
         \<and> path (g' ! 0) = Some 1 \<and> path (g' ! 1) = Some 1 \<and> rank (g' ! 0) = 0 \<and> rank (g' ! 1) = 1)"
proof -
  have l: "length scenario = 4" by (simp add: scenario_eq)
  have v: "\<forall>xy \<in> set [(0, 1), (2, 3), (1, 3)]. fst xy < length scenario \<and> snd xy < length scenario"
    by (simp add: l)
  have a: "acyclic_unions [(0, 1), (2, 3), (1, 3)] (\<lambda>x. x)"
    by (simp add: merge_into_def)
  note T = disjoint_sets_roots [OF v a]
  from T have j: "joining [(0, 1), (2, 3), (1, 3)] (make_sets scenario)"
    by blast
  have h: "uf_rel (make_sets scenario) (\<lambda>x. x) \<and> 0 < length (make_sets scenario)
           \<and> 1 < length (make_sets scenario) \<and> (\<lambda>x. x) (0::nat) \<noteq> (\<lambda>x. x) (1::nat)"
    using make_sets_uf_rel [of scenario] by (simp add: make_sets_nth l)
  have rk: "rank (make_sets scenario ! 0) = 0" "rank (make_sets scenario ! 1) = 0"
    by (simp_all add: make_sets_nth l)
  have n: "num_roots (make_sets scenario) = 4"
    by (simp add: num_roots_make_sets l)
  from T have "\<forall>(h :: string graph) f x y. uf_rel h f \<and> x < length h \<and> y < length h \<and> f x \<noteq> f y \<longrightarrow>
            (\<exists>h1 h2 g'. findSet h x = Some (Inr (f x, h1)) \<and> findSet h y = Some (Inr (f y, h2))
               \<and> linkSets x y h = Some (Inr g')
               \<and> length g' = length h \<and> num_roots g' + 1 = num_roots h
               \<and> (rank (h ! f y) < rank (h ! f x) \<longrightarrow>
                    path (g' ! f y) = Some (f x) \<and> path (g' ! f x) = Some (f x)
                    \<and> rank (g' ! f x) = rank (h ! f x) \<and> rank (g' ! f y) = rank (h ! f y))
               \<and> (rank (h ! f x) < rank (h ! f y) \<longrightarrow>
                    path (g' ! f x) = Some (f y) \<and> path (g' ! f y) = Some (f y)
                    \<and> rank (g' ! f x) = rank (h ! f x) \<and> rank (g' ! f y) = rank (h ! f y))
               \<and> (rank (h ! f x) = rank (h ! f y) \<longrightarrow>
                    path (g' ! f x) = Some (f y) \<and> path (g' ! f y) = Some (f y)
                    \<and> rank (g' ! f x) = rank (h ! f x) \<and> rank (g' ! f y) = rank (h ! f y) + 1))"
    by (rule conjunct2)
  from this [rule_format, OF h] rk n
  have "\<exists>g'. linkSets 0 1 (make_sets scenario) = Some (Inr g') \<and> num_roots g' = 3
         \<and> path (g' ! 0) = Some 1 \<and> path (g' ! 1) = Some 1 \<and> rank (g' ! 0) = 0 \<and> rank (g' ! 1) = 1"
    by auto
  moreover from T l have "\<exists>g'. unions [(0, 1), (2, 3), (1, 3)] (make_sets scenario) = Some (Inr g')
         \<and> num_roots g' = 1"
    by auto
  ultimately show ?thesis using a j l n by blast
qed

section \<open>Kruskal's algorithm finds a minimum spanning tree\<close>

lemma kruskal_edges_set:
  "set (kruskal_edges g) = {r. valid_eref g r \<and> fst r < dest (the_edge g r)}"
  by (auto simp: kruskal_edges_def set_all_erefs)

lemma kruskal_edges_sorted: "sorted (map (\<lambda>r. weight (the_edge g r)) (kruskal_edges g))"
  unfolding kruskal_edges_def by (rule sorted_sort_key)

text \<open>An edge lighter than the next edge of the loop has been gone through already.\<close>

lemma kruskal_edges_before:
  assumes p: "kruskal_edges g = ds @ e # rest" and r: "r \<in> set (kruskal_edges g)"
    and lt: "weight (the_edge g r) < weight (the_edge g e)"
  shows "r \<in> set ds"
proof (rule ccontr)
  assume n: "r \<notin> set ds"
  from kruskal_edges_sorted [of g] have "sorted (map (\<lambda>r. weight (the_edge g r)) (e # rest))"
    unfolding p by (simp add: sorted_append)
  then have "\<forall>x \<in> set rest. weight (the_edge g e) \<le> weight (the_edge g x)"
    by simp
  moreover from r n p have "r = e \<or> r \<in> set rest" by auto
  ultimately show False using lt by auto
qed

lemma ktree_sub:
  assumes S: "\<forall>r \<in> S. valid_eref g r"
  shows "ktree g S \<subseteq> uedges g"
proof
  fix a assume "a \<in> ktree g S"
  then obtain r where r: "r \<in> S" "fst r < dest (the_edge g r)"
    "a = norm_edge (fst r) (dest (the_edge g r)) (weight (the_edge g r))"
    unfolding ktree_def by blast
  from S r(1) have "fst r < length g" "the_edge g r \<in> set (adj (g ! fst r))"
    by (auto simp: valid_eref_def the_edge_def)
  from uedges_I [OF this] r(2,3) show "a \<in> uedges g" by simp
qed

lemma uedges_ends:
  assumes wf: "wf_graph g" and a: "a \<in> uedges g"
  shows "fst a < length g \<and> fst (snd a) < length g"
proof -
  from a obtain u e where u: "u < length g" "e \<in> set (adj (g ! u))" "a = norm_edge u (dest e) (weight e)"
    unfolding uedges_def by blast
  with wf have "dest e < length g" by (auto simp: wf_graph_def)
  with u(1,3) norm_edge_ends [of u "dest e" "weight e"] show ?thesis by auto
qed

lemma links_ends:
  assumes wf: "wf_graph g" and A: "A \<subseteq> uedges g" and l: "(x, y) \<in> links A"
  shows "x < length g \<and> y < length g"
proof -
  from l obtain a where "a \<in> A" "fst a = x \<and> fst (snd a) = y \<or> fst a = y \<and> fst (snd a) = x"
    by (auto simp: links_def)
  with uedges_ends [OF wf, of a] A show ?thesis by auto
qed

text \<open>What one more edge between \<open>u\<close> and \<open>v\<close> connects.\<close>

lemma rtrancl_insert_edge:
  "(x, y) \<in> (insert (u, v) (insert (v, u) R))\<^sup>*
   \<longleftrightarrow> (x, y) \<in> R\<^sup>* \<or> ((x, u) \<in> R\<^sup>* \<and> (v, y) \<in> R\<^sup>*) \<or> ((x, v) \<in> R\<^sup>* \<and> (u, y) \<in> R\<^sup>*)"
  (is "?L \<longleftrightarrow> ?R")
proof
  let ?R' = "insert (u, v) (insert (v, u) R)"
  assume ?L
  then show ?R
  proof (induction rule: rtrancl_induct)
    case base
    show ?case by simp
  next
    case (step y z)
    from step.hyps(2) have "(y, z) \<in> R \<or> (y = u \<and> z = v) \<or> (y = v \<and> z = u)" by auto
    then show ?case
    proof (elim disjE)
      assume "(y, z) \<in> R"
      with step.IH show ?thesis by (meson rtrancl_into_rtrancl)
    next
      assume "y = u \<and> z = v"
      with step.IH show ?thesis by blast
    next
      assume "y = v \<and> z = u"
      with step.IH show ?thesis by blast
    qed
  qed
next
  let ?R' = "insert (u, v) (insert (v, u) R)"
  have m: "(a, b) \<in> R\<^sup>* \<Longrightarrow> (a, b) \<in> ?R'\<^sup>*" for a b
    by (rule rtrancl_mono [THEN subsetD]) auto
  have uv: "(u, v) \<in> ?R'\<^sup>*" "(v, u) \<in> ?R'\<^sup>*" by auto
  assume ?R
  then show ?L
  proof (elim disjE conjE)
    assume "(x, y) \<in> R\<^sup>*"
    then show ?thesis by (rule m)
  next
    assume "(x, u) \<in> R\<^sup>*" "(v, y) \<in> R\<^sup>*"
    then have "(x, u) \<in> ?R'\<^sup>*" "(v, y) \<in> ?R'\<^sup>*" by (simp_all add: m)
    with uv(1) show ?thesis by (meson rtrancl_trans)
  next
    assume "(x, v) \<in> R\<^sup>*" "(u, y) \<in> R\<^sup>*"
    then have "(x, v) \<in> ?R'\<^sup>*" "(u, y) \<in> ?R'\<^sup>*" by (simp_all add: m)
    with uv(2) show ?thesis by (meson rtrancl_trans)
  qed
qed

lemma links_insert:
  "links (insert (norm_edge u v w) T) = insert (u, v) (insert (v, u) (links T))"
  by (auto simp: links_def norm_edge_def split: if_splits)

lemma ktree_insert:
  assumes e: "fst e < dest (the_edge g e)" and r: "\<not> fst r < dest (the_edge g r)"
  shows "ktree g (insert r (insert e S))
         = insert (norm_edge (fst e) (dest (the_edge g e)) (weight (the_edge g e))) (ktree g S)"
  using assms unfolding ktree_def by auto

lemma kruskal_invD:
  assumes "kruskal_inv g f k S ds"
  shows "x < length g \<Longrightarrow> y < length g \<Longrightarrow> f x = f y \<longleftrightarrow> (x, y) \<in> (links (ktree g S))\<^sup>*"
    and "extendable g (ktree g S)"
    and "card (ktree g S) = k"
    and "card {x. x < length g \<and> f x = x} + k = length g"
    and "r \<in> set ds \<Longrightarrow> f (fst r) = f (dest (the_edge g r))"
    and "finite S"
    and "(\<Sum>r \<in> S. weight (the_edge g r)) = 2 * tree_weight (ktree g S)"
    and "r \<in> S \<Longrightarrow> valid_eref g r"
    and "r \<in> S \<Longrightarrow> f (fst r) = f (dest (the_edge g r))"
    and "r \<in> S \<Longrightarrow> fst r < dest (the_edge g r)
               \<or> (\<exists>e \<in> S. fst e < dest (the_edge g e) \<and> reverse (the_edge g e) = Some r)"
  using assms unfolding kruskal_inv_def by blast+

lemma kruskal_invI:
  assumes "\<And>x y. x < length g \<Longrightarrow> y < length g \<Longrightarrow> f x = f y \<longleftrightarrow> (x, y) \<in> (links (ktree g S))\<^sup>*"
    and "extendable g (ktree g S)"
    and "card (ktree g S) = k"
    and "card {x. x < length g \<and> f x = x} + k = length g"
    and "\<forall>r \<in> set ds. f (fst r) = f (dest (the_edge g r))"
    and "finite S"
    and "(\<Sum>r \<in> S. weight (the_edge g r)) = 2 * tree_weight (ktree g S)"
    and "\<forall>r \<in> S. valid_eref g r \<and> f (fst r) = f (dest (the_edge g r))
           \<and> (fst r < dest (the_edge g r)
               \<or> (\<exists>e \<in> S. fst e < dest (the_edge g e) \<and> reverse (the_edge g e) = Some r))"
  shows "kruskal_inv g f k S ds"
  unfolding kruskal_inv_def
proof (intro conjI allI impI)
  fix x y assume "x < length g" "y < length g"
  then show "f x = f y \<longleftrightarrow> (x, y) \<in> (links (ktree g S))\<^sup>*" by (rule assms(1))
qed (rule assms)+

lemma kruskal_inv_empty: "kruskal_inv g (\<lambda>x. x) 0 {} []"
proof -
  have "ktree g {} = {}" by (simp add: ktree_def)
  moreover have "links {} = {}" by (simp add: links_def)
  moreover have "{x. x < length g} = {..<length g}" by auto
  ultimately show ?thesis
    by (simp add: kruskal_inv_def extendable_empty tree_weight_def)
qed

text \<open>Every undirected edge has a direction in which the third loop goes through it.\<close>

lemma canonical_eref:
  assumes wf: "wf_bidir g" and p: "p < length g" and e: "e' \<in> set (adj (g ! p))" and ne: "p \<noteq> dest e'"
  shows "\<exists>c. valid_eref g c \<and> fst c < dest (the_edge g c) \<and> weight (the_edge g c) = weight e'
           \<and> ((fst c = p \<and> dest (the_edge g c) = dest e') \<or> (fst c = dest e' \<and> dest (the_edge g c) = p))"
proof -
  from e obtain k where k: "k < length (adj (g ! p))" "e' = adj (g ! p) ! k"
    by (metis in_set_conv_nth)
  then have v: "valid_eref g (p, k)" and te: "the_edge g (p, k) = e'"
    using p by (simp_all add: valid_eref_def the_edge_def)
  show ?thesis
  proof (cases "p < dest e'")
    case True
    with v te show ?thesis by (intro exI [of _ "(p, k)"]) simp
  next
    case False
    from wf_bidir_edge(3) [OF wf v] te obtain r where
      r: "valid_eref g r" "orig (the_edge g r) = dest e'" "dest (the_edge g r) = p"
         "weight (the_edge g r) = weight e'"
      by auto
    from wf_bidir_edge(1) [OF wf r(1)] r(2) have "fst r = dest e'" by simp
    with r False ne show ?thesis by (intro exI [of _ r]) simp
  qed
qed

lemma kruskal_inv_join:
  assumes wf: "wf_bidir g" and inv: "kruskal_inv g f k S ds"
    and p: "kruskal_edges g = ds @ e # rest"
    and u: "uf_rel h f" and l: "length h = length g"
    and ne: "f (fst e) \<noteq> f (dest (the_edge g e))"
    and r: "reverse (the_edge g e) = Some r"
    and ij: "(i = f (fst e) \<and> j = f (dest (the_edge g e))) \<or> (j = f (fst e) \<and> i = f (dest (the_edge g e)))"
  shows "kruskal_inv g (merge_into f i j) (Suc k) (insert r (insert e S)) (ds @ [e])"
proof -
  note D = kruskal_invD [OF inv]
  let ?u = "fst e" and ?v = "dest (the_edge g e)" and ?w = "weight (the_edge g e)"
  let ?T = "ktree g S"
  let ?a = "norm_edge ?u ?v ?w"
  let ?f' = "merge_into f i j"
  from wf have wfg: "wf_graph g" by (simp add: wf_bidir_def)
  have em: "e \<in> set (kruskal_edges g)" using p by simp
  then have ev: "valid_eref g e" and ec: "?u < ?v" by (simp_all add: kruskal_edges_set)
  from ev have ul: "?u < length g" and te: "the_edge g e \<in> set (adj (g ! ?u))"
    by (simp_all add: valid_eref_def the_edge_def)
  from wf_bidir_edge [OF wf ev] r have vl: "?v < length g" and rv: "valid_eref g r"
    and ro: "orig (the_edge g r) = ?v" and rd: "dest (the_edge g r) = ?u"
    and rw: "weight (the_edge g r) = ?w"
    by auto
  from wf_bidir_edge(1) [OF wf rv] ro have rf: "fst r = ?v" by simp
  have rnc: "\<not> fst r < dest (the_edge g r)" using rf rd ec by simp
  have Tsub: "?T \<subseteq> uedges g" by (rule ktree_sub) (use D(8) in blast)
  have finT: "finite ?T" using Tsub finite_uedges by (rule finite_subset)
  have lk: "f x = f y" if "(x, y) \<in> links ?T" for x y
  proof -
    from links_ends [OF wfg Tsub that] have "x < length g" "y < length g" by simp_all
    from D(1) [OF this] that show ?thesis by blast
  qed
  have anT: "?a \<notin> ?T"
  proof
    assume "?a \<in> ?T"
    then have "(?u, ?v) \<in> links ?T" using ec by (auto simp: links_def norm_edge_def)
    from lk [OF this] ne show False by simp
  qed
  have kt: "insert ?a ?T = ktree g (insert r (insert e S))" by (rule ktree_insert [OF ec rnc, symmetric])
  have co: "?f' x = ?f' y" if "f x = f y" for x y
    using that by (simp add: merge_into_def)
  have fe: "?f' ?u = ?f' ?v" using ij by (auto simp: merge_into_def)
  have c1: "?f' x = ?f' y \<longleftrightarrow> (x, y) \<in> (links (insert ?a ?T))\<^sup>*"
    if x: "x < length g" and y: "y < length g" for x y
  proof -
    have "?f' x = ?f' y \<longleftrightarrow> (if f x = f ?u \<or> f x = f ?v then f y = f ?u \<or> f y = f ?v else f x = f y)"
    proof (rule disjE [OF ij])
      assume "i = f ?u \<and> j = f ?v"
      then have "i = f ?u" "j = f ?v" by simp_all
      then show ?thesis by (simp only: merge_into_eq_iff)
    next
      assume "j = f ?u \<and> i = f ?v"
      then have "j = f ?u" "i = f ?v" by simp_all
      then show ?thesis by (simp only: merge_into_eq_iff disj_commute)
    qed
    also have "\<dots> \<longleftrightarrow> f x = f y \<or> (f x = f ?u \<and> f ?v = f y) \<or> (f x = f ?v \<and> f ?u = f y)"
      using ne by auto
    also have "\<dots> \<longleftrightarrow> (x, y) \<in> (links ?T)\<^sup>* \<or> ((x, ?u) \<in> (links ?T)\<^sup>* \<and> (?v, y) \<in> (links ?T)\<^sup>*)
                   \<or> ((x, ?v) \<in> (links ?T)\<^sup>* \<and> (?u, y) \<in> (links ?T)\<^sup>*)"
      using D(1) x y ul vl by simp
    also have "\<dots> \<longleftrightarrow> (x, y) \<in> (links (insert ?a ?T))\<^sup>*"
      by (simp only: links_insert rtrancl_insert_edge)
    finally show ?thesis .
  qed
  let ?C = "{x. x < length g \<and> f x = f ?u}"
  have c2: "extendable g (insert ?a ?T)"
  proof (rule extendable_insert [OF D(2), where S = ?C])
    show "\<forall>a \<in> ?T. \<not> crosses ?C a"
    proof
      fix t assume t: "t \<in> ?T"
      then have "(fst t, fst (snd t)) \<in> links ?T"
        by (cases t) (auto simp: links_def)
      from lk [OF this] uedges_ends [OF wfg, of t] Tsub t show "\<not> crosses ?C t"
        by (auto simp: crosses_def)
    qed
    show "?u \<in> ?C" using ul by simp
    show "?v \<notin> ?C" using ne by auto
    show "?u < length g" by (rule ul)
    show "?v < length g" by (rule vl)
    show "?a \<in> uedges g"
      using uedges_I [OF ul te] ec by simp
    show "\<forall>t \<in> uedges g. crosses ?C t \<longrightarrow> ?w \<le> snd (snd t)"
    proof (intro ballI impI)
      fix t assume t: "t \<in> uedges g" and cr: "crosses ?C t"
      from t obtain q e' where pe: "q < length g" "e' \<in> set (adj (g ! q))" "q \<noteq> dest e'"
        "t = norm_edge q (dest e') (weight e')"
        unfolding uedges_def by blast
      from canonical_eref [OF wf pe(1,2,3)] obtain c where
        c: "valid_eref g c" "fst c < dest (the_edge g c)" "weight (the_edge g c) = weight e'"
           "(fst c = q \<and> dest (the_edge g c) = dest e') \<or> (fst c = dest e' \<and> dest (the_edge g c) = q)"
        by blast
      from wfg pe have dl: "dest e' < length g" by (auto simp: wf_graph_def)
      show "?w \<le> snd (snd t)"
      proof (rule ccontr)
        assume "\<not> ?w \<le> snd (snd t)"
        then have lt: "weight (the_edge g c) < ?w" using c(3) pe(4) by simp
        have "c \<in> set (kruskal_edges g)" using c(1,2) by (simp add: kruskal_edges_set)
        from kruskal_edges_before [OF p this lt] have "c \<in> set ds" .
        from D(5) [OF this] c(4) have "f q = f (dest e')" by auto
        then have "\<not> crosses ?C t" using pe(1,4) dl by (simp add: crosses_norm_edge)
        with cr show False by simp
      qed
    qed
  qed
  have c3: "card (insert ?a ?T) = Suc k"
    using finT anT D(3) by simp
  have c4: "card {x. x < length g \<and> ?f' x = x} + Suc k = length g"
  proof -
    have fu: "f ?u < length h" "f ?v < length h" "f (f ?u) = f ?u" "f (f ?v) = f ?v"
      using uf_relD(1) [OF u] uf_rel_idem [OF u] ul vl l by simp_all
    from ij fu ne have "i < length h" "f i = i" "f j = j" "i \<noteq> j" by auto
    from roots_card_join [OF u this, of k "length g"] D(4) l show ?thesis by simp
  qed
  have c5: "\<forall>r' \<in> set (ds @ [e]). ?f' (fst r') = ?f' (dest (the_edge g r'))"
  proof
    fix r' assume "r' \<in> set (ds @ [e])"
    then have "r' \<in> set ds \<or> r' = e" by auto
    then show "?f' (fst r') = ?f' (dest (the_edge g r'))"
    proof
      assume "r' \<in> set ds"
      from co [OF D(5) [OF this]] show ?thesis .
    next
      assume "r' = e"
      with fe show ?thesis by simp
    qed
  qed
  have c6: "finite (insert r (insert e S))" using D(6) by simp
  have eS: "e \<notin> S"
  proof
    assume "e \<in> S"
    from D(9) [OF this] ne show False by simp
  qed
  have rS: "r \<notin> S"
  proof
    assume "r \<in> S"
    from D(9) [OF this] have "f ?v = f ?u" by (simp add: rf rd)
    with ne show False by simp
  qed
  have er: "e \<noteq> r" using rf ec by auto
  have c7: "(\<Sum>r' \<in> insert r (insert e S). weight (the_edge g r')) = 2 * tree_weight (insert ?a ?T)"
  proof -
    have "(\<Sum>r' \<in> insert r (insert e S). weight (the_edge g r'))
          = weight (the_edge g r) + (weight (the_edge g e) + (\<Sum>r' \<in> S. weight (the_edge g r')))"
      using D(6) eS rS er by simp
    moreover have "tree_weight (insert ?a ?T) = ?w + tree_weight ?T"
      unfolding tree_weight_def using finT anT by simp
    ultimately show ?thesis using D(7) rw by simp
  qed
  have c8: "\<forall>r' \<in> insert r (insert e S). valid_eref g r' \<and> ?f' (fst r') = ?f' (dest (the_edge g r'))
           \<and> (fst r' < dest (the_edge g r')
               \<or> (\<exists>e' \<in> insert r (insert e S). fst e' < dest (the_edge g e') \<and> reverse (the_edge g e') = Some r'))"
  proof
    fix r' assume "r' \<in> insert r (insert e S)"
    then consider "r' = r" | "r' = e" | "r' \<in> S" by blast
    then show "valid_eref g r' \<and> ?f' (fst r') = ?f' (dest (the_edge g r'))
           \<and> (fst r' < dest (the_edge g r')
               \<or> (\<exists>e' \<in> insert r (insert e S). fst e' < dest (the_edge g e') \<and> reverse (the_edge g e') = Some r'))"
    proof cases
      case 1
      have "\<exists>e' \<in> insert r (insert e S). fst e' < dest (the_edge g e') \<and> reverse (the_edge g e') = Some r"
        using ec r by blast
      with 1 rv fe rf rd show ?thesis by simp
    next
      case 2
      with ev fe ec show ?thesis by simp
    next
      case 3
      from D(10) [OF 3] have "fst r' < dest (the_edge g r')
               \<or> (\<exists>e' \<in> insert r (insert e S). fst e' < dest (the_edge g e') \<and> reverse (the_edge g e') = Some r')"
        by blast
      with D(8) [OF 3] co [OF D(9) [OF 3]] show ?thesis by simp
    qed
  qed
  show ?thesis
    by (rule kruskal_invI [OF c1 [unfolded kt] c2 [unfolded kt] c3 [unfolded kt] c4 c5 c6 c7 [unfolded kt] c8])
qed

lemma kruskal_inv_skip:
  assumes inv: "kruskal_inv g f k S ds" and eq: "f (fst e) = f (dest (the_edge g e))"
  shows "kruskal_inv g f k S (ds @ [e])"
proof -
  note D = kruskal_invD [OF inv]
  have c5: "\<forall>r \<in> set (ds @ [e]). f (fst r) = f (dest (the_edge g r))"
    using D(5) eq by auto
  have c8: "\<forall>r \<in> S. valid_eref g r \<and> f (fst r) = f (dest (the_edge g r))
           \<and> (fst r < dest (the_edge g r)
               \<or> (\<exists>e \<in> S. fst e < dest (the_edge g e) \<and> reverse (the_edge g e) = Some r))"
    using D(8,9,10) by blast
  show ?thesis
    by (rule kruskal_invI [OF D(1) D(2) D(3) D(4) c5 D(6) D(7) c8])
qed

text \<open>The first three loops of \<open>calculateKruskal\<close> return, in a state of the third loop.\<close>

lemma kruskal_sets_inv:
  fixes g :: "'a graph"
  assumes wf: "wf_bidir g"
  shows "\<exists>g' k f. kruskal_sets g = Some (Inr (g', k)) \<and> uf_rel g' f
           \<and> map kr_erase g' = map kr_erase g \<and> kruskal_inv g f k (sel g') (kruskal_edges g)"
proof -
  let ?J = "\<lambda>f k S ds. (\<exists>rest. kruskal_edges g = ds @ rest) \<longrightarrow> kruskal_inv g f k S ds"
  have "\<exists>g' k' f'. kruskal_sets g = Some (Inr (g', k')) \<and> uf_rel g' f'
           \<and> map kr_erase g' = map kr_erase g \<and> ?J f' k' (sel g') (kruskal_edges g)"
  proof (rule kruskal_sets_rule [where J = ?J])
    show "wf_bidir g" by (rule wf)
  next
    fix f k S ds e and h :: "'a graph"
    assume J: "?J f k S ds" and eq: "f (fst e) = f (dest (the_edge g e))"
    show "?J f k S (ds @ [e])"
    proof
      assume "\<exists>rest. kruskal_edges g = (ds @ [e]) @ rest"
      then obtain rest where p: "kruskal_edges g = ds @ e # rest" by auto
      with J have inv: "kruskal_inv g f k S ds" by blast
      show "kruskal_inv g f k S (ds @ [e])" by (rule kruskal_inv_skip [OF inv eq])
    qed
  next
    fix f k S ds e r i j and h :: "'a graph"
    assume J: "?J f k S ds" and u: "uf_rel h f" and l: "length h = length g"
      and ne: "f (fst e) \<noteq> f (dest (the_edge g e))" and r: "reverse (the_edge g e) = Some r"
      and ij: "(i = f (fst e) \<and> j = f (dest (the_edge g e))) \<or> (j = f (fst e) \<and> i = f (dest (the_edge g e)))"
    show "?J (merge_into f i j) (Suc k) (insert r (insert e S)) (ds @ [e])"
    proof
      assume "\<exists>rest. kruskal_edges g = (ds @ [e]) @ rest"
      then obtain rest where p: "kruskal_edges g = ds @ e # rest" by auto
      with J have inv: "kruskal_inv g f k S ds" by blast
      show "kruskal_inv g (merge_into f i j) (Suc k) (insert r (insert e S)) (ds @ [e])"
        by (rule kruskal_inv_join [OF wf inv p u l ne r ij])
    qed
  next
    show "?J (\<lambda>x. x) 0 {} []" by (simp add: kruskal_inv_empty)
  qed
  then obtain g' k' f' where
    "kruskal_sets g = Some (Inr (g', k'))" "uf_rel g' f'" "map kr_erase g' = map kr_erase g"
    "?J f' k' (sel g') (kruskal_edges g)"
    by blast
  moreover from this(4) have "kruskal_inv g f' k' (sel g') (kruskal_edges g)" by simp
  ultimately show ?thesis by blast
qed

text \<open>On a connected graph the third loop ends with a minimum spanning tree.\<close>

lemma kruskal_inv_final:
  assumes wf: "wf_bidir g" and ne: "g \<noteq> []" and conn: "\<forall>v < length g. reaches g 0 v"
    and inv: "kruskal_inv g f k S (kruskal_edges g)"
    and u: "uf_rel h f" and l: "length h = length g"
  shows "is_mst g (ktree g S)"
proof -
  note D = kruskal_invD [OF inv]
  from ne have n0: "0 < length g" by simp
  have adjf: "f y = f z" if y: "y < length g" and e: "e' \<in> set (adj (g ! y))" and z: "dest e' = z" for y z e'
  proof (cases "y = z")
    case True
    then show ?thesis by simp
  next
    case False
    with z have "y \<noteq> dest e'" by simp
    from canonical_eref [OF wf y e this] obtain c where
      c: "valid_eref g c" "fst c < dest (the_edge g c)"
         "(fst c = y \<and> dest (the_edge g c) = dest e') \<or> (fst c = dest e' \<and> dest (the_edge g c) = y)"
      by blast
    from c(1,2) have "c \<in> set (kruskal_edges g)" by (simp add: kruskal_edges_set)
    from D(5) [OF this] c(3) z show ?thesis by auto
  qed
  have all: "f v = f 0" if "v < length g" for v
  proof -
    from conn that have "(0, v) \<in> (edge_rel g)\<^sup>*" by (simp add: reaches_def)
    then show ?thesis
    proof (induction rule: rtrancl_induct)
      case base
      show ?case by simp
    next
      case (step y z)
      from step.hyps(2) obtain e' where "y < length g" "e' \<in> set (adj (g ! y))" "dest e' = z"
        by (auto simp: edge_rel_def)
      from adjf [OF this] step.IH show ?case by simp
    qed
  qed
  have conn': "connects (length g) (ktree g S)"
    unfolding connects_def
  proof (intro allI impI)
    fix v assume v: "v < length g"
    from D(1) [OF n0 v] all [OF v] all [OF n0] show "(0, v) \<in> (links (ktree g S))\<^sup>*" by simp
  qed
  have f0: "f 0 < length g" "f (f 0) = f 0"
    using uf_relD(1) [OF u, of 0] uf_rel_idem [OF u, of 0] n0 l by simp_all
  have "{x. x < length g \<and> f x = x} = {f 0}"
  proof (rule set_eqI)
    fix x
    show "x \<in> {x. x < length g \<and> f x = x} \<longleftrightarrow> x \<in> {f 0}"
    proof
      assume "x \<in> {x. x < length g \<and> f x = x}"
      then have "x < length g" "f x = x" by simp_all
      with all [of x] show "x \<in> {f 0}" by simp
    next
      assume "x \<in> {f 0}"
      with f0 show "x \<in> {x. x < length g \<and> f x = x}" by simp
    qed
  qed
  with D(4) have "k = length g - 1" by simp
  with D(3) have card: "card (ktree g S) = length g - 1" by simp
  have sub: "ktree g S \<subseteq> uedges g" by (rule ktree_sub) (use D(8) in blast)
  show ?thesis by (rule extendable_final [OF D(2) sub card conn'])
qed

section \<open>The weight of the selected edges\<close>

lemma concat_adj_erefs: "concat (map adj g) = map (the_edge g) (all_erefs g)"
proof -
  have "map (the_edge g) (all_erefs g)
        = concat (map (\<lambda>v. map (\<lambda>k. adj (g ! v) ! k) [0..<length (adj (g ! v))]) [0..<length g])"
    by (simp add: all_erefs_def map_concat comp_def the_edge_def)
  also have "\<dots> = concat (map (\<lambda>v. adj (g ! v)) [0..<length g])"
    by (simp add: map_nth)
  also have "map (\<lambda>v. adj (g ! v)) [0..<length g] = map adj g"
    by (rule nth_equalityI) simp_all
  finally show ?thesis by simp
qed

lemma distinct_pairs:
  "distinct vs \<Longrightarrow> distinct (concat (map (\<lambda>v. map (\<lambda>k. (v, k)) [0..<m v]) vs))"
  by (induction vs) (auto simp: distinct_map inj_on_def)

lemma distinct_all_erefs: "distinct (all_erefs g)"
  unfolding all_erefs_def by (rule distinct_pairs) simp

lemma selected_weight_sel: "selected_weight g = (\<Sum>r \<in> sel g. weight (the_edge g r))"
proof -
  let ?rs = "filter (\<lambda>r. selected (the_edge g r)) (all_erefs g)"
  have "filter selected (map (the_edge g) (all_erefs g)) = map (the_edge g) ?rs"
    by (simp add: filter_map comp_def)
  then have "selected_weight g = sum_list (map (\<lambda>r. weight (the_edge g r)) ?rs)"
    by (simp add: selected_weight_def concat_adj_erefs comp_def)
  also have "\<dots> = sum (\<lambda>r. weight (the_edge g r)) (set ?rs)"
    by (rule sum_list_distinct_conv_sum_set) (simp add: distinct_all_erefs)
  also have "set ?rs = sel g"
    by (auto simp: sel_def set_all_erefs)
  finally show ?thesis .
qed

lemma selected_weight_cong: "map adj g' = map adj g \<Longrightarrow> selected_weight g' = selected_weight g"
  by (simp add: selected_weight_def)

lemma kruskal_tree_cong:
  assumes "map adj g' = map adj g"
  shows "kruskal_tree g' = kruskal_tree g"
proof -
  from assms have l: "length g' = length g" by (metis length_map)
  have "adj (g' ! u) = adj (g ! u)" if "u < length g" for u
    using assms that l by (metis nth_map)
  then show ?thesis
    unfolding kruskal_tree_def l by (simp cong: conj_cong)
qed

lemma norm_edge_commute: "norm_edge u v w = norm_edge v u w"
  by (auto simp: norm_edge_def)

text \<open>The selected edges and their reverses stand for the chosen undirected edges.\<close>

lemma kruskal_tree_ktree:
  assumes wf: "wf_bidir g" and fr: "map kr_erase g' = map kr_erase g"
    and S: "\<And>r. r \<in> sel g' \<Longrightarrow> fst r < dest (the_edge g r)
               \<or> (\<exists>e \<in> sel g'. fst e < dest (the_edge g e) \<and> reverse (the_edge g e) = Some r)"
  shows "kruskal_tree g' = ktree g (sel g')"
proof (rule set_eqI, rule iffI)
  fix t assume "t \<in> kruskal_tree g'"
  then obtain u e' where ue: "u < length g'" "e' \<in> set (adj (g' ! u))" "selected e'" "u \<noteq> dest e'"
    "t = norm_edge u (dest e') (weight e')"
    unfolding kruskal_tree_def by blast
  from ue(2) obtain i where i: "i < length (adj (g' ! u))" "e' = adj (g' ! u) ! i"
    by (metis in_set_conv_nth)
  let ?r = "(u, i)"
  have v': "valid_eref g' ?r" and te: "the_edge g' ?r = e'"
    using ue(1) i by (simp_all add: valid_eref_def the_edge_def)
  then have rs: "?r \<in> sel g'" using ue(3) by (simp add: sel_def)
  have v: "valid_eref g ?r" using v' kr_erase_valid [OF fr] by simp
  note F = kr_erase_fields [OF fr v]
  have d: "dest (the_edge g ?r) = dest e'" "weight (the_edge g ?r) = weight e'"
    using F te by simp_all
  from S [OF rs] show "t \<in> ktree g (sel g')"
  proof
    assume "fst ?r < dest (the_edge g ?r)"
    moreover have "t = norm_edge (fst ?r) (dest (the_edge g ?r)) (weight (the_edge g ?r))"
      using ue(5) d by simp
    ultimately show ?thesis using rs unfolding ktree_def by blast
  next
    assume "\<exists>e \<in> sel g'. fst e < dest (the_edge g e) \<and> reverse (the_edge g e) = Some ?r"
    then obtain e where e: "e \<in> sel g'" "fst e < dest (the_edge g e)" "reverse (the_edge g e) = Some ?r"
      by blast
    from e(1) have ev: "valid_eref g e" using kr_erase_valid [OF fr] by (simp add: sel_def)
    from wf_bidir_edge(3) [OF wf ev] e(3) have
      "orig (the_edge g ?r) = dest (the_edge g e)" "dest (the_edge g ?r) = fst e"
      "weight (the_edge g ?r) = weight (the_edge g e)"
      by auto
    moreover from wf_bidir_edge(1) [OF wf v] have "orig (the_edge g ?r) = u" by simp
    ultimately have "t = norm_edge (dest (the_edge g e)) (fst e) (weight (the_edge g e))"
      using ue(5) d by simp
    then have "t = norm_edge (fst e) (dest (the_edge g e)) (weight (the_edge g e))"
      by (simp only: norm_edge_commute [of "fst e"])
    with e(1,2) show ?thesis unfolding ktree_def by blast
  qed
next
  fix t assume "t \<in> ktree g (sel g')"
  then obtain r where r: "r \<in> sel g'" "fst r < dest (the_edge g r)"
    "t = norm_edge (fst r) (dest (the_edge g r)) (weight (the_edge g r))"
    unfolding ktree_def by blast
  from r(1) have v': "valid_eref g' r" and s: "selected (the_edge g' r)" by (simp_all add: sel_def)
  then have v: "valid_eref g r" using kr_erase_valid [OF fr] by simp
  note F = kr_erase_fields [OF fr v]
  from v' have m: "fst r < length g'" "the_edge g' r \<in> set (adj (g' ! fst r))"
    by (simp_all add: valid_eref_def the_edge_def)
  have "t = norm_edge (fst r) (dest (the_edge g' r)) (weight (the_edge g' r))"
    "fst r \<noteq> dest (the_edge g' r)"
    using r(2,3) F by simp_all
  with m s show "t \<in> kruskal_tree g'" unfolding kruskal_tree_def by blast
qed

text \<open>
  On a connected graph built with \<open>addBidirectionalEdge\<close>, \<open>calculateKruskal\<close> returns, the
  selected edges are a minimum spanning tree, and their weights add up to twice its
  weight.
\<close>

lemma calculateKruskal_mst_weight:
  assumes wf: "wf_bidir g" and ne: "g \<noteq> []" and conn: "\<forall>v < length g. reaches g 0 v"
  shows "\<exists>gk. calculateKruskal g = Some (Inr gk) \<and> is_mst g (kruskal_tree gk)
           \<and> selected_weight gk = 2 * tree_weight (kruskal_tree gk)"
proof -
  from wf have wfg: "wf_graph g" by (simp add: wf_bidir_def)
  from kruskal_sets_inv [OF wf] obtain g3 k f where
    ks: "kruskal_sets g = Some (Inr (g3, k))" and u: "uf_rel g3 f"
    and fr: "map kr_erase g3 = map kr_erase g" and inv: "kruskal_inv g f k (sel g3) (kruskal_edges g)"
    by blast
  note D = kruskal_invD [OF inv]
  note l = kr_erase_length [OF fr]
  have mst: "is_mst g (ktree g (sel g3))"
    by (rule kruskal_inv_final [OF wf ne conn inv u l])
  have kt: "kruskal_tree g3 = ktree g (sel g3)"
    by (rule kruskal_tree_ktree [OF wf fr D(10)])
  have "selected_weight g3 = (\<Sum>r \<in> sel g3. weight (the_edge g3 r))"
    by (rule selected_weight_sel)
  also have "\<dots> = (\<Sum>r \<in> sel g3. weight (the_edge g r))"
    by (rule sum.cong [OF refl]) (rule kr_erase_fields(3) [OF fr D(8)])
  finally have sw: "selected_weight g3 = 2 * tree_weight (kruskal_tree g3)"
    using D(7) kt by simp
  from calculateKruskal_after_sets [OF ks fr wfg ne] obtain gk where
    gk: "calculateKruskal g = Some (Inr gk)" "map adj gk = map adj g3"
    by blast
  from gk mst sw kt show ?thesis
    by (simp add: selected_weight_cong [OF gk(2)] kruskal_tree_cong [OF gk(2)])
qed

section \<open>Kruskal's algorithm and Prim's algorithm find the same weight\<close>

lemma calculatePrim_mst_weight:
  assumes wf: "wf_bidir g" and ne: "g \<noteq> []"
    and conn: "\<forall>v < length g. reaches g 0 v"
    and fin: "\<forall>v < length g. \<forall>e \<in> set (adj (g ! v)). weight e < INF_dbl"
  shows "\<exists>gp. calculatePrim g = Some (Inr gp) \<and> is_mst g (prim_tree gp)
           \<and> dist_sum gp = tree_weight (prim_tree gp)"
proof -
  from wf have wfg: "wf_graph g" by (simp add: wf_bidir_def)
  let ?n = "length g"
  from prim_loop_mst [OF wf ne] obtain g' where
    g': "calculatePrim g = Some (Inr g')" and s: "prim_struct g {} (g', [])" and t: "prim_tree_ok g g'"
    by blast
  note D = prim_structD [OF s]
  from t have T: "extendable g (tree_of g')" "card (tree_of g') + 1 = card (vis g')"
    "tree_weight (tree_of g') = (\<Sum>v \<in> vis g' - {0}. distv (g' ! v))"
    "\<forall>v \<in> vis g'. (0, v) \<in> (links (tree_of g'))\<^sup>*"
    by (simp_all add: prim_tree_ok_def)
  have all: "visited (g' ! v)" if "v < ?n" for v
    using prim_all_visited [OF wfg ne s fin] conn that by blast
  have vis: "vis g' = {..<?n}"
    using all D(2) by (auto simp: vis_def)
  have pt: "prim_tree g' = tree_of g'"
    unfolding prim_tree_def tree_of_def vis D(2) by simp
  have sub: "tree_of g' \<subseteq> uedges g"
  proof
    fix a assume "a \<in> tree_of g'"
    then obtain v p where v: "v \<in> vis g'" "path (g' ! v) = Some p" "a = norm_edge p v (distv (g' ! v))"
      unfolding tree_of_def by blast
    from v(1) have vl: "v < ?n" "visited (g' ! v)" using D(2) by (simp_all add: vis_def)
    have "v \<noteq> 0"
    proof
      assume "v = 0" with v(2) D(4) show False by simp
    qed
    from D(10) [OF vl this] v(2) have "norm_edge p v (distv (g' ! v)) \<in> uedges g" by auto
    with v(3) show "a \<in> uedges g" by simp
  qed
  have card: "card (tree_of g') = ?n - 1"
    using T(2) by (simp add: vis)
  have conn': "connects ?n (tree_of g')"
    using T(4) by (simp add: connects_def vis)
  have mst: "is_mst g (tree_of g')"
    by (rule extendable_final [OF T(1) sub card conn'])
  have "{..<?n} - {0} = {1..<?n}" by auto
  with T(3) have sum: "dist_sum g' = tree_weight (tree_of g')"
    by (simp add: vis dist_sum_def D(2))
  from g' mst sum show ?thesis
    by (simp add: pt)
qed

lemma is_mst_weight: "is_mst g T \<Longrightarrow> is_mst g T' \<Longrightarrow> tree_weight T = tree_weight T'"
  unfolding is_mst_def by (intro order.antisym) blast+

text \<open>
  C2, as the code has it. On a connected graph with a vertex, built with
  \<open>addBidirectionalEdge\<close>, whose weights are all smaller than \<open>INF\<close>, \<open>calculateKruskal\<close>
  and \<open>calculatePrim\<close> both return; the selected edges left by \<open>calculateKruskal\<close> are
  a minimum spanning tree, and so are the parent edges left by \<open>calculatePrim\<close>; and
  half the sum of the weights of the selected edges is the weight of a minimum
  spanning tree and equals the sum of the distances of the vertices other than
  vertex 0 after \<open>calculatePrim\<close>.
\<close>

theorem kruskal_prim_weight:
  assumes wf: "wf_bidir g" and ne: "g \<noteq> []"
    and conn: "\<forall>v < length g. reaches g 0 v"
    and fin: "\<forall>v < length g. \<forall>e \<in> set (adj (g ! v)). weight e < INF_dbl"
  shows "\<exists>gk gp. calculateKruskal g = Some (Inr gk) \<and> calculatePrim g = Some (Inr gp)
           \<and> is_mst g (kruskal_tree gk) \<and> selected_weight gk / 2 = tree_weight (kruskal_tree gk)
           \<and> is_mst g (prim_tree gp) \<and> dist_sum gp = tree_weight (prim_tree gp)
           \<and> selected_weight gk / 2 = dist_sum gp"
proof -
  from calculateKruskal_mst_weight [OF wf ne conn] obtain gk where
    gk: "calculateKruskal g = Some (Inr gk)" "is_mst g (kruskal_tree gk)"
        "selected_weight gk = 2 * tree_weight (kruskal_tree gk)"
    by blast
  from calculatePrim_mst_weight [OF wf ne conn fin] obtain gp where
    gp: "calculatePrim g = Some (Inr gp)" "is_mst g (prim_tree gp)"
        "dist_sum gp = tree_weight (prim_tree gp)"
    by blast
  from gk(3) have h: "selected_weight gk / 2 = tree_weight (kruskal_tree gk)" by simp
  have "tree_weight (kruskal_tree gk) = tree_weight (prim_tree gp)"
    by (rule is_mst_weight [OF gk(2) gp(2)])
  with gk(1,2) gp h show ?thesis by simp
qed

lemma scenario_kruskal_weight:
  "map_option (map_sum id selected_weight) (calculateKruskal scenario) = Some (Inr 12)"
  by code_simp

lemma scenario_prim_weight:
  "map_option (map_sum id dist_sum) (calculatePrim scenario) = Some (Inr 6)"
  by code_simp

theorem kruskal_prim_weight_witness:
  "wf_bidir scenario \<and> scenario \<noteq> []
   \<and> reaches scenario 0 1 \<and> reaches scenario 0 2 \<and> reaches scenario 0 3
   \<and> (\<exists>gk gp. calculateKruskal scenario = Some (Inr gk) \<and> calculatePrim scenario = Some (Inr gp)
         \<and> is_mst scenario (kruskal_tree gk) \<and> is_mst scenario (prim_tree gp)
         \<and> selected_weight gk = 12 \<and> dist_sum gp = 6
         \<and> selected_weight gk / 2 = dist_sum gp)"
proof -
  have ne: "scenario \<noteq> []" by (simp add: scenario_eq)
  from kruskal_prim_weight [OF wf_bidir_scenario ne scenario_connected scenario_weights]
  obtain gk gp where
    r: "calculateKruskal scenario = Some (Inr gk)" "calculatePrim scenario = Some (Inr gp)"
       "is_mst scenario (kruskal_tree gk)" "is_mst scenario (prim_tree gp)"
       "selected_weight gk / 2 = dist_sum gp"
    by blast
  from r(1) scenario_kruskal_weight have "selected_weight gk = 12" by simp
  moreover from r(2) scenario_prim_weight have "dist_sum gp = 6" by simp
  ultimately show ?thesis
    using r wf_bidir_scenario ne scenario_reaches by blast
qed

lemma inf_chain_eq:
  "inf_chain =
    [\<lparr>info = ''A'',
      adj = [\<lparr>orig = 0, dest = 1, weight = INF_dbl, selected = False, reverse = Some (1, 0)\<rparr>],
      visited = False, distv = 0, path = None, queueIndex = 0, idv = 0, rank = 0\<rparr>,
     \<lparr>info = ''B'',
      adj = [\<lparr>orig = 1, dest = 0, weight = INF_dbl, selected = False, reverse = Some (0, 0)\<rparr>,
             \<lparr>orig = 1, dest = 2, weight = 1, selected = False, reverse = Some (2, 0)\<rparr>],
      visited = False, distv = 0, path = None, queueIndex = 0, idv = 0, rank = 0\<rparr>,
     \<lparr>info = ''C'',
      adj = [\<lparr>orig = 2, dest = 1, weight = 1, selected = False, reverse = Some (1, 1)\<rparr>],
      visited = False, distv = 0, path = None, queueIndex = 0, idv = 0, rank = 0\<rparr>]"
  by (simp add: inf_chain_def addVertex_def addBidirectionalEdge_def findVertex_def Vertex_def
        Vertex_addEdge_def set_reverse_def Edge_def Let_def)

text \<open>
  The claim fails for an edge as heavy as \<open>INF\<close>: \<open>calculatePrim\<close> does not go along it,
  and leaves the distance \<open>INF\<close> in the two vertices behind it, while \<open>calculateKruskal\<close>
  selects both edges.
\<close>

theorem kruskal_prim_weight_counterexample:
  "wf_bidir inf_chain \<and> length inf_chain = 3 \<and> reaches inf_chain 0 1 \<and> reaches inf_chain 0 2
   \<and> map_option (map_sum id selected_weight) (calculateKruskal inf_chain) = Some (Inr (2 * INF_dbl + 2))
   \<and> map_option (map_sum id dist_sum) (calculatePrim inf_chain) = Some (Inr (2 * INF_dbl))
   \<and> (2 * INF_dbl + 2) / 2 \<noteq> 2 * INF_dbl"
proof -
  have "wf_bidir inf_chain"
    by (simp add: wf_bidir_def wf_graph_def inf_chain_eq All_less_Suc edge_at_def)
  moreover have "length inf_chain = 3" by (simp add: inf_chain_eq)
  moreover have "reaches inf_chain 0 0" by (simp add: reaches_def)
  then have 1: "reaches inf_chain 0 1"
    by (rule edge_reaches [where e = "\<lparr>orig = 0, dest = 1, weight = INF_dbl, selected = False, reverse = Some (1, 0)\<rparr>"])
       (simp_all add: inf_chain_eq)
  moreover from 1 have "reaches inf_chain 0 2"
    by (rule edge_reaches [where e = "\<lparr>orig = 1, dest = 2, weight = 1, selected = False, reverse = Some (2, 0)\<rparr>"])
       (simp_all add: inf_chain_eq)
  moreover have "map_option (map_sum id selected_weight) (calculateKruskal inf_chain) = Some (Inr (2 * INF_dbl + 2))"
    by code_simp
  moreover have "map_option (map_sum id dist_sum) (calculatePrim inf_chain) = Some (Inr (2 * INF_dbl))"
    by code_simp
  moreover have "(2 * INF_dbl + 2) / 2 \<noteq> 2 * INF_dbl"
    using INF_dbl_gt_4 by simp
  ultimately show ?thesis by simp
qed

end
